theory Spec2Isabelle
  imports Main "HOL-Library.Word"
begin

section \<open>The request lock of the block archiver (core/blockarchiver/types.go)\<close>

text \<open>
  Block numbers are Go \<^verbatim>\<open>uint64\<close> values: 64-bit words whose \<open>+\<close> wraps around.
  The largest one is \<open>- 1\<close>, that is \<open>2 ^ 64 - 1\<close>.
\<close>

type_synonym uint64 = "64 word"

text \<open>\<^verbatim>\<open>type Range struct { from uint64; to uint64 }\<close>\<close>

record Range =
  range_from :: uint64
  range_to :: uint64

text \<open>
  \<^verbatim>\<open>type RequestLock struct { rangeMap map[uint64]Range; lookupMap map[uint64]bool; mu sync.Mutex }\<close>
  The two Go maps are partial functions. The mutex is held for the whole of each method, so
  a method is one atomic step on the pair of maps.
\<close>

record RequestLock =
  rangeMap :: "uint64 \<rightharpoonup> Range"
  lookupMap :: "uint64 \<rightharpoonup> bool"

definition NewRequestLock :: RequestLock where
  "NewRequestLock = \<lparr>rangeMap = Map.empty, lookupMap = Map.empty\<rparr>"

text \<open>\<^verbatim>\<open>_, exists := rc.lookupMap[num]; return exists\<close>\<close>

definition IsWithinAnyRange :: "RequestLock \<Rightarrow> uint64 \<Rightarrow> bool" where
  "IsWithinAnyRange rc num = (case lookupMap rc num of None \<Rightarrow> False | Some _ \<Rightarrow> True)"

text \<open>
  \<^verbatim>\<open>for i := from; i <= to; i++ { rc.lookupMap[i] = true }\<close>
  The counter is a \<^verbatim>\<open>uint64\<close>, so \<open>i + 1\<close> wraps to \<open>0\<close> after the largest value and the
  loop need not end: it is a partial function, and \<open>None\<close> is the run that never returns.
\<close>

partial_function (option) AddRange_loop ::
  "uint64 \<Rightarrow> uint64 \<Rightarrow> (uint64 \<rightharpoonup> bool) \<Rightarrow> (uint64 \<rightharpoonup> bool) option" where
  "AddRange_loop i to m =
     (if i \<le> to then AddRange_loop (i + 1) to (m(i \<mapsto> True)) else Some m)"

text \<open>\<^verbatim>\<open>for i := from; i <= to; i++ { delete(rc.lookupMap, i) }\<close>\<close>

partial_function (option) RemoveRange_loop ::
  "uint64 \<Rightarrow> uint64 \<Rightarrow> (uint64 \<rightharpoonup> bool) \<Rightarrow> (uint64 \<rightharpoonup> bool) option" where
  "RemoveRange_loop i to m =
     (if i \<le> to then RemoveRange_loop (i + 1) to (m(i := None)) else Some m)"

text \<open>\<^verbatim>\<open>rc.rangeMap[from] = Range{from, to}\<close>, then the loop.\<close>

definition AddRange :: "RequestLock \<Rightarrow> uint64 \<Rightarrow> uint64 \<Rightarrow> RequestLock option" where
  "AddRange rc frm to =
     (let rm = (rangeMap rc)(frm \<mapsto> \<lparr>range_from = frm, range_to = to\<rparr>)
      in case AddRange_loop frm to (lookupMap rc) of
           None \<Rightarrow> None
         | Some lm \<Rightarrow> Some \<lparr>rangeMap = rm, lookupMap = lm\<rparr>)"

text \<open>\<^verbatim>\<open>delete(rc.rangeMap, from)\<close>, then the loop.\<close>

definition RemoveRange :: "RequestLock \<Rightarrow> uint64 \<Rightarrow> uint64 \<Rightarrow> RequestLock option" where
  "RemoveRange rc frm to =
     (let rm = (rangeMap rc)(frm := None)
      in case RemoveRange_loop frm to (lookupMap rc) of
           None \<Rightarrow> None
         | Some lm \<Rightarrow> Some \<lparr>rangeMap = rm, lookupMap = lm\<rparr>)"

subsection \<open>Sequences of lock calls and the invariant of the lock\<close>

datatype lock_call = CallAddRange uint64 uint64 | CallRemoveRange uint64 uint64

fun lock_step :: "RequestLock \<Rightarrow> lock_call \<Rightarrow> RequestLock option" where
  "lock_step rc (CallAddRange frm to) = AddRange rc frm to"
| "lock_step rc (CallRemoveRange frm to) = RemoveRange rc frm to"

fun lock_run :: "RequestLock \<Rightarrow> lock_call list \<Rightarrow> RequestLock option" where
  "lock_run rc [] = Some rc"
| "lock_run rc (c # cs) =
     (case lock_step rc c of None \<Rightarrow> None | Some rc' \<Rightarrow> lock_run rc' cs)"

text \<open>The identifiers covered by the union of the intervals stored in \<open>rangeMap\<close>.\<close>

definition covered :: "RequestLock \<Rightarrow> uint64 set" where
  "covered rc = {x. \<exists>r \<in> ran (rangeMap rc). range_from r \<le> x \<and> x \<le> range_to r}"

text \<open>The invariant of the specification: \<open>lookupMap\<close> holds exactly the covered identifiers.\<close>

definition lock_inv :: "RequestLock \<Rightarrow> bool" where
  "lock_inv rc = (dom (lookupMap rc) = covered rc)"

text \<open>
  The range a call names, and sequences of calls whose ranges are non-empty, end below the
  largest \<^verbatim>\<open>uint64\<close> and are pairwise either the same range or without a common
  identifier (what bundles of an archive are).
\<close>

fun call_range :: "lock_call \<Rightarrow> uint64 \<times> uint64" where
  "call_range (CallAddRange frm to) = (frm, to)"
| "call_range (CallRemoveRange frm to) = (frm, to)"

definition compatible_ranges :: "(uint64 \<times> uint64) set \<Rightarrow> bool" where
  "compatible_ranges F =
     (\<forall>p \<in> F. \<forall>q \<in> F. fst p \<le> snd p \<and> snd p \<noteq> - 1 \<and>
        (p = q \<or> snd p < fst q \<or> snd q < fst p))"

definition compatible_calls :: "lock_call list \<Rightarrow> bool" where
  "compatible_calls cs = compatible_ranges (call_range ` set cs)"

text \<open>Every stored range is keyed by its own \<open>from\<close> and belongs to the family \<open>F\<close>.\<close>

definition stored_in :: "(uint64 \<times> uint64) set \<Rightarrow> RequestLock \<Rightarrow> bool" where
  "stored_in F rc =
     (\<forall>k r. rangeMap rc k = Some r \<longrightarrow> range_from r = k \<and> (k, range_to r) \<in> F)"

section \<open>The client of the block archiver service\<close>

subsection \<open>Errors, panics and results\<close>

text \<open>
  A Go function of the client or the service returns its values with a \<^verbatim>\<open>nil\<close> error,
  returns an error, or panics (an index or a slice bound out of range). The errors the
  code itself creates are \<^verbatim>\<open>errors.New("block not found")\<close>,
  \<^verbatim>\<open>errors.New("failed to get bundle name")\<close>,
  \<^verbatim>\<open>errors.New("failed to get response")\<close> and the two errors of
  \<^verbatim>\<open>strconv.ParseUint\<close>; every other error comes from outside (the transport, the JSON
  decoder, \<^verbatim>\<open>convertBlock\<close>, \<^verbatim>\<open>HexToUint64\<close>) and is passed on as it is.
\<close>

datatype error =
    ErrBlockNotFound
  | ErrFailedToGetBundleName
  | ErrFailedToGetResponse
  | ErrSyntax string
  | ErrRange string
  | ErrExternal string

datatype panic =
    IndexOutOfRange nat nat
  | SliceBoundsOutOfRange nat nat
  | ExternalPanic string

datatype 'a result = Ok 'a | Err error | Panic panic

subsection \<open>The library functions used to read a bundle name\<close>

text \<open>
  \<^verbatim>\<open>strings.Split(s, sep)\<close> of the Go standard library for a separator of one byte:
  the substrings between the separators, one more than there are separators, so the
  result is never empty (\<^verbatim>\<open>strings.Split("", "_")\<close> is \<^verbatim>\<open>[""]\<close>).
\<close>

fun strings_Split :: "string \<Rightarrow> char \<Rightarrow> string list" where
  "strings_Split [] sep = [[]]"
| "strings_Split (c # cs) sep =
     (if c = sep then [] # strings_Split cs sep
      else (case strings_Split cs sep of
              [] \<Rightarrow> [[c]]
            | p # ps \<Rightarrow> (c # p) # ps))"

text \<open>Go's \<^verbatim>\<open>xs[i]\<close> and \<^verbatim>\<open>s[i:]\<close>: both panic out of range.\<close>

definition go_index :: "'a list \<Rightarrow> nat \<Rightarrow> 'a result" where
  "go_index xs i = (if i < length xs then Ok (xs ! i) else Panic (IndexOutOfRange i (length xs)))"

definition go_slice_from :: "string \<Rightarrow> nat \<Rightarrow> string result" where
  "go_slice_from s i =
     (if i \<le> length s then Ok (drop i s) else Panic (SliceBoundsOutOfRange i (length s)))"

text \<open>
  \<^verbatim>\<open>strconv.ParseUint(s, 10, 64)\<close> of the Go standard library, as its loop runs for base 10
  and 64 bits: the empty string is a syntax error; each byte must be a decimal digit (a
  letter is a digit of a larger base, an underscore is accepted for base 0 only: both are
  syntax errors here); \<^verbatim>\<open>cutoff = maxUint64/10 + 1\<close> is the least \<open>n\<close> whose \<open>n * 10\<close>
  overflows; the accumulator is a \<^verbatim>\<open>uint64\<close> and \<^verbatim>\<open>n1 < n\<close> detects the wrap-around of
  the addition.
\<close>

definition is_digit :: "char \<Rightarrow> bool" where
  "is_digit c = (48 \<le> (of_char c :: nat) \<and> (of_char c :: nat) \<le> 57)"

definition digit_of :: "char \<Rightarrow> nat" where
  "digit_of c = of_char c - 48"

definition ParseUint_cutoff :: uint64 where
  "ParseUint_cutoff = (- 1) div 10 + 1"

fun ParseUint_loop :: "string \<Rightarrow> uint64 \<Rightarrow> string \<Rightarrow> error + uint64" where
  "ParseUint_loop s0 n [] = Inr n"
| "ParseUint_loop s0 n (c # cs) =
     (if \<not> is_digit c then Inl (ErrSyntax s0)
      else if n \<ge> ParseUint_cutoff then Inl (ErrRange s0)
      else (let n' = n * 10; n1 = n' + of_nat (digit_of c)
            in if n1 < n' then Inl (ErrRange s0) else ParseUint_loop s0 n1 cs))"

definition ParseUint :: "string \<Rightarrow> error + uint64" where
  "ParseUint s = (if s = [] then Inl (ErrSyntax s) else ParseUint_loop s 0 s)"

text \<open>
  The value a string of decimal digits denotes, as a natural number: what the
  specification means by the decimal \<open>start\<close> and \<open>end\<close> of a bundle name.
\<close>

definition decimal_from :: "nat \<Rightarrow> string \<Rightarrow> nat" where
  "decimal_from a ds = foldl (\<lambda>a c. 10 * a + digit_of c) a ds"

definition decimal_value :: "string \<Rightarrow> nat" where
  "decimal_value ds = decimal_from 0 ds"

definition is_decimal :: "string \<Rightarrow> bool" where
  "is_decimal ds = (ds \<noteq> [] \<and> list_all is_digit ds)"

subsection \<open>The remote service and the client\<close>

text \<open>
  \<^verbatim>\<open>common.Hash\<close> is 32 bytes. Of the wire format \<^verbatim>\<open>Block\<close> the modelled code reads the
  \<^verbatim>\<open>Number\<close> field only; the other fields are strings and lists that \<^verbatim>\<open>convertBlock\<close>
  alone reads, and they live in the extension of the record.
\<close>

type_synonym Hash = "256 word"

record Block =
  block_Hash :: string
  block_Number :: string

text \<open>
  An HTTP exchange is outside the program; a reply is what the exchange gave, stage by
  stage: the request could not be built or sent (\<^verbatim>\<open>json.Marshal\<close>, \<^verbatim>\<open>http.NewRequest\<close> or
  \<^verbatim>\<open>c.hc.Do\<close> failed), or a response came with a status code and a body, and the body could
  not be read (\<^verbatim>\<open>io.ReadAll\<close>), could not be decoded (\<^verbatim>\<open>json.Unmarshal\<close>), or was decoded
  to the value the code goes on with: the \<^verbatim>\<open>Data\<close> field of a \<^verbatim>\<open>GetBundleNameResponse\<close>, the
  \<^verbatim>\<open>Result\<close> field of a \<^verbatim>\<open>GetBlockResponse\<close> (a pointer, \<^verbatim>\<open>nil\<close> is \<open>None\<close>) or of a
  \<^verbatim>\<open>GetBlocksResponse\<close> (a slice of pointers).
\<close>

datatype 'a response_body = ReadFailed error | UnmarshalFailed error | Decoded 'a

datatype 'a reply = RequestFailed error | Response nat "'a response_body"

text \<open>
  \<^verbatim>\<open>type Client struct { hc *http.Client; blockArchiverHost string }\<close>: the client is the
  remote service seen through it, one reply for each request the modelled code sends.
\<close>

record Client =
  bundleNameReply :: "uint64 \<Rightarrow> string reply"
  bundleBlocksReply :: "uint64 \<Rightarrow> Block option list reply"
  blockByHashReply :: "Hash \<Rightarrow> Block option reply"

text \<open>
  \<^verbatim>\<open>postRequest\<close> followed by \<^verbatim>\<open>json.Unmarshal\<close>, as \<^verbatim>\<open>Client.GetBlockByHash\<close> and
  \<^verbatim>\<open>Client.GetBundleBlocksByBlockNum\<close> both do: a status other than 200 is the error
  \<^verbatim>\<open>"failed to get response"\<close>.
\<close>

definition postRequest_decode :: "'a reply \<Rightarrow> error + 'a" where
  "postRequest_decode r =
     (case r of
        RequestFailed err \<Rightarrow> Inl err
      | Response status body \<Rightarrow>
          if status \<noteq> 200 then Inl ErrFailedToGetResponse
          else (case body of
                  ReadFailed err \<Rightarrow> Inl err
                | UnmarshalFailed err \<Rightarrow> Inl err
                | Decoded v \<Rightarrow> Inr v))"

definition Client_GetBlockByHash :: "Client \<Rightarrow> Hash \<Rightarrow> error + Block option" where
  "Client_GetBlockByHash cl hash = postRequest_decode (blockByHashReply cl hash)"

definition Client_GetBundleBlocksByBlockNum ::
  "Client \<Rightarrow> uint64 \<Rightarrow> error + Block option list" where
  "Client_GetBundleBlocksByBlockNum cl blockNum = postRequest_decode (bundleBlocksReply cl blockNum)"

subsection \<open>GetBundleBlocksRange\<close>

text \<open>
  Lines 102 to 112 of the client: the bundle name is split at \<^verbatim>\<open>"_"\<close>, and the second and
  third parts, each without its first byte, are parsed as decimal \<^verbatim>\<open>uint64\<close>.
  \<^verbatim>\<open>parts[1][1:]\<close> is evaluated, and its number parsed and checked, before \<^verbatim>\<open>parts[2]\<close> is
  touched.
\<close>

definition GetBundleBlocksRange_parse :: "string \<Rightarrow> (uint64 \<times> uint64) result" where
  "GetBundleBlocksRange_parse bundleName =
     (let parts = strings_Split bundleName (CHR ''_'') in
      case go_index parts 1 of
        Panic p \<Rightarrow> Panic p
      | Err e \<Rightarrow> Err e
      | Ok part1 \<Rightarrow>
     (case go_slice_from part1 1 of
        Panic p \<Rightarrow> Panic p
      | Err e \<Rightarrow> Err e
      | Ok s1 \<Rightarrow>
     (case ParseUint s1 of
        Inl err \<Rightarrow> Err err
      | Inr startSlot \<Rightarrow>
     (case go_index parts 2 of
        Panic p \<Rightarrow> Panic p
      | Err e \<Rightarrow> Err e
      | Ok part2 \<Rightarrow>
     (case go_slice_from part2 1 of
        Panic p \<Rightarrow> Panic p
      | Err e \<Rightarrow> Err e
      | Ok s2 \<Rightarrow>
     (case ParseUint s2 of
        Inl err \<Rightarrow> Err err
      | Inr endSlot \<Rightarrow> Ok (startSlot, endSlot)))))))"

definition GetBundleBlocksRange :: "Client \<Rightarrow> uint64 \<Rightarrow> (uint64 \<times> uint64) result" where
  "GetBundleBlocksRange cl blockNum =
     (case bundleNameReply cl blockNum of
        RequestFailed err \<Rightarrow> Err err
      | Response status body \<Rightarrow>
          if status \<noteq> 200 then Err ErrFailedToGetBundleName
          else (case body of
                  ReadFailed err \<Rightarrow> Err err
                | UnmarshalFailed err \<Rightarrow> Err err
                | Decoded bundleName \<Rightarrow> GetBundleBlocksRange_parse bundleName))"

section \<open>The block archiver service\<close>

text \<open>
  \<^verbatim>\<open>GetBlockRetry = 3\<close> and \<^verbatim>\<open>GetBlockRetryInterval = 2 * time.Second\<close>; a
  \<^verbatim>\<open>time.Duration\<close> counts nanoseconds.
\<close>

definition GetBlockRetry :: int where
  "GetBlockRetry = 3"

definition Second :: int where
  "Second = 1000000000"

definition GetBlockRetryInterval :: int where
  "GetBlockRetryInterval = 2 * Second"

text \<open>
  What the service reads of a converted block: \<^verbatim>\<open>block.Hash()\<close>, \<^verbatim>\<open>block.NumberU64()\<close>,
  \<^verbatim>\<open>block.Body()\<close> and \<^verbatim>\<open>block.Header()\<close>. Bodies and headers are values of the chain
  library, of any types \<open>'b\<close> and \<open>'h\<close>.
\<close>

record ('b, 'h) GeneralBlock =
  gb_Hash :: Hash
  gb_NumberU64 :: uint64
  gb_Body :: 'b
  gb_Header :: 'h

text \<open>
  What happens in order during a call, kept in the state as a log: the operations on the
  request lock, the requests to the remote service, and the sleeps with their duration.
\<close>

datatype event =
    EvIsWithinAnyRange uint64
  | EvAddRange uint64 uint64
  | EvRemoveRange uint64 uint64
  | EvGetBundleBlocksRange uint64
  | EvGetBundleBlocksByBlockNum uint64
  | EvClientGetBlockByHash Hash
  | EvSleep int

text \<open>
  \<^verbatim>\<open>type BlockArchiverService struct { client; bodyCache; headerCache; hashCache; requestLock }\<close>.

  Modelled from the spec: the three \<^verbatim>\<open>lru.Cache\<close> values (package \<^verbatim>\<open>common/lru\<close>, not
  part of these sources) are the capability \<open>get(key) -> value?\<close>, \<open>add(key, value)\<close> of
  the specification: a partial function, \<^verbatim>\<open>Get\<close> a lookup and \<^verbatim>\<open>Add\<close> an update. Capacity
  and eviction are left to the cache.
\<close>

record ('b, 'h) BlockArchiverService =
  client :: Client
  bodyCache :: "Hash \<rightharpoonup> 'b"
  headerCache :: "Hash \<rightharpoonup> 'h"
  hashCache :: "uint64 \<rightharpoonup> Hash"
  requestLock :: RequestLock
  events :: "event list"

text \<open>
  What the service uses and these sources do not hold: \<^verbatim>\<open>convertBlock\<close> (it returns a
  block, returns an error, or panics, for instance on a \<^verbatim>\<open>nil\<close> block), \<^verbatim>\<open>HexToUint64\<close>, and
  the other tasks of the process, which fill the three caches while this one sleeps:
  \<open>other_tasks k\<close> is what they do to the caches during the sleep of round \<open>k\<close>.
\<close>

record ('b, 'h) externals =
  convertBlock :: "Block option \<Rightarrow> ('b, 'h) GeneralBlock result"
  HexToUint64 :: "string \<Rightarrow> error + uint64"
  other_tasks :: "int \<Rightarrow> (Hash \<rightharpoonup> 'b) \<times> (Hash \<rightharpoonup> 'h) \<times> (uint64 \<rightharpoonup> Hash) \<Rightarrow>
                    (Hash \<rightharpoonup> 'b) \<times> (Hash \<rightharpoonup> 'h) \<times> (uint64 \<rightharpoonup> Hash)"

definition emit ::
  "event \<Rightarrow> ('b, 'h) BlockArchiverService \<Rightarrow> ('b, 'h) BlockArchiverService" where
  "emit e c = c\<lparr>events := events c @ [e]\<rparr>"

text \<open>\<^verbatim>\<open>time.Sleep(GetBlockRetryInterval)\<close> in round \<open>retry\<close> of the wait loop.\<close>

definition Sleep ::
  "('b, 'h) externals \<Rightarrow> int \<Rightarrow> ('b, 'h) BlockArchiverService \<Rightarrow> ('b, 'h) BlockArchiverService" where
  "Sleep x retry c =
     (case other_tasks x retry (bodyCache c, headerCache c, hashCache c) of
        (bc, hc, nc) \<Rightarrow>
          emit (EvSleep GetBlockRetryInterval) (c\<lparr>bodyCache := bc, headerCache := hc, hashCache := nc\<rparr>))"

text \<open>
  The wait loop of \<^verbatim>\<open>getBlockByNumber\<close>:
  \<^verbatim>\<open>for retry := 0; retry < GetBlockRetry; retry++ { ...; time.Sleep(GetBlockRetryInterval) }\<close>
  and \<^verbatim>\<open>return nil, nil, errors.New("block not found")\<close> after it.
\<close>

function waitLoop ::
  "('b, 'h) externals \<Rightarrow> int \<Rightarrow> ('b, 'h) BlockArchiverService \<Rightarrow> uint64 \<Rightarrow>
   ('b, 'h) BlockArchiverService \<times> ('b option \<times> 'h option) result" where
  "waitLoop x retry c number =
     (if retry < GetBlockRetry then
        (case hashCache c number of
           None \<Rightarrow> waitLoop x (retry + 1) (Sleep x retry c) number
         | Some hash \<Rightarrow>
             (case bodyCache c hash of
                None \<Rightarrow> waitLoop x (retry + 1) (Sleep x retry c) number
              | Some body \<Rightarrow>
                  (case headerCache c hash of
                     None \<Rightarrow> waitLoop x (retry + 1) (Sleep x retry c) number
                   | Some header \<Rightarrow> (c, Ok (Some body, Some header)))))
      else (c, Err ErrBlockNotFound))"
  by pat_completeness auto
termination
  by (relation "measure (\<lambda>(x, retry, c, number). nat (GetBlockRetry - retry))") auto

declare waitLoop.simps [simp del]

text \<open>
  The loop \<^verbatim>\<open>for _, b := range blocks\<close> of \<^verbatim>\<open>getBlockByNumber\<close> and the
  \<^verbatim>\<open>return body, header, nil\<close> after it: each block is converted and added to the three
  caches; \<open>body\<close> and \<open>header\<close> start as \<^verbatim>\<open>nil\<close> and are set by a block of this number.
\<close>

fun populate ::
  "('b, 'h) externals \<Rightarrow> uint64 \<Rightarrow> Block option list \<Rightarrow> ('b, 'h) BlockArchiverService \<Rightarrow>
   'b option \<times> 'h option \<Rightarrow>
   ('b, 'h) BlockArchiverService \<times> ('b option \<times> 'h option) result" where
  "populate x number [] c (body, header) = (c, Ok (body, header))"
| "populate x number (b # bs) c (body, header) =
     (case convertBlock x b of
        Err err \<Rightarrow> (c, Err err)
      | Panic p \<Rightarrow> (c, Panic p)
      | Ok block \<Rightarrow>
          populate x number bs
            (c\<lparr>bodyCache := (bodyCache c)(gb_Hash block \<mapsto> gb_Body block),
               headerCache := (headerCache c)(gb_Hash block \<mapsto> gb_Header block),
               hashCache := (hashCache c)(gb_NumberU64 block \<mapsto> gb_Hash block)\<rparr>)
            (if gb_NumberU64 block = number
             then (Some (gb_Body block), Some (gb_Header block))
             else (body, header)))"

text \<open>
  Lines 307 to 329 of the service: what \<^verbatim>\<open>getBlockByNumber\<close> does between the \<^verbatim>\<open>defer\<close> and
  its return.
\<close>

definition fetchBundle ::
  "('b, 'h) externals \<Rightarrow> ('b, 'h) BlockArchiverService \<Rightarrow> uint64 \<Rightarrow>
   ('b, 'h) BlockArchiverService \<times> ('b option \<times> 'h option) result" where
  "fetchBundle x c number =
     (let c1 = emit (EvGetBundleBlocksByBlockNum number) c in
      case Client_GetBundleBlocksByBlockNum (client c1) number of
        Inl err \<Rightarrow> (c1, Err err)
      | Inr blocks \<Rightarrow> populate x number blocks c1 (None, None))"

text \<open>
  \<^verbatim>\<open>getBlockByNumber\<close>. The deferred \<^verbatim>\<open>RemoveRange(start, end)\<close> runs when the function is
  left after the \<^verbatim>\<open>defer\<close> statement, by a \<^verbatim>\<open>return\<close> or by a panic, and the result of the
  function is the one it was left with. \<open>None\<close> is the call that never returns, because
  \<open>AddRange\<close> or \<open>RemoveRange\<close> does not.
\<close>

definition getBlockByNumber ::
  "('b, 'h) externals \<Rightarrow> ('b, 'h) BlockArchiverService \<Rightarrow> uint64 \<Rightarrow>
   (('b, 'h) BlockArchiverService \<times> ('b option \<times> 'h option) result) option" where
  "getBlockByNumber x c number =
     (let c1 = emit (EvIsWithinAnyRange number) c in
      if IsWithinAnyRange (requestLock c1) number then Some (waitLoop x 0 c1 number)
      else
        (let c2 = emit (EvGetBundleBlocksRange number) c1 in
         case GetBundleBlocksRange (client c2) number of
           Err err \<Rightarrow> Some (c2, Err err)
         | Panic p \<Rightarrow> Some (c2, Panic p)
         | Ok (start, en) \<Rightarrow>
             (case AddRange (requestLock c2) start en of
                None \<Rightarrow> None
              | Some rl \<Rightarrow>
                  (case fetchBundle x (emit (EvAddRange start en) (c2\<lparr>requestLock := rl\<rparr>)) number of
                     (c3, r) \<Rightarrow>
                       (case RemoveRange (requestLock c3) start en of
                          None \<Rightarrow> None
                        | Some rl' \<Rightarrow>
                            Some (emit (EvRemoveRange start en) (c3\<lparr>requestLock := rl'\<rparr>), r))))))"

text \<open>\<^verbatim>\<open>GetBlockByNumber\<close>: the three caches first, then \<^verbatim>\<open>getBlockByNumber\<close>.\<close>

definition GetBlockByNumber ::
  "('b, 'h) externals \<Rightarrow> ('b, 'h) BlockArchiverService \<Rightarrow> uint64 \<Rightarrow>
   (('b, 'h) BlockArchiverService \<times> ('b option \<times> 'h option) result) option" where
  "GetBlockByNumber x c number =
     (case hashCache c number of
        None \<Rightarrow> getBlockByNumber x c number
      | Some hash \<Rightarrow>
          (case bodyCache c hash of
             None \<Rightarrow> getBlockByNumber x c number
           | Some body \<Rightarrow>
               (case headerCache c hash of
                  None \<Rightarrow> getBlockByNumber x c number
                | Some header \<Rightarrow> Some (c, Ok (Some body, Some header)))))"

text \<open>
  \<^verbatim>\<open>GetBlockByHash\<close>: the body and header caches first, then the block from the remote
  service to learn its number, then \<^verbatim>\<open>getBlockByNumber\<close>.
\<close>

definition GetBlockByHash ::
  "('b, 'h) externals \<Rightarrow> ('b, 'h) BlockArchiverService \<Rightarrow> Hash \<Rightarrow>
   (('b, 'h) BlockArchiverService \<times> ('b option \<times> 'h option) result) option" where
  "GetBlockByHash x c hash =
     (case (bodyCache c hash, headerCache c hash) of
        (Some body, Some header) \<Rightarrow> Some (c, Ok (Some body, Some header))
      | _ \<Rightarrow>
          (let c1 = emit (EvClientGetBlockByHash hash) c in
           case Client_GetBlockByHash (client c1) hash of
             Inl err \<Rightarrow> Some (c1, Err err)
           | Inr None \<Rightarrow> Some (c1, Ok (None, None))
           | Inr (Some block) \<Rightarrow>
               (case HexToUint64 x (block_Number block) of
                  Inl err \<Rightarrow> Some (c1, Err err)
                | Inr number \<Rightarrow> getBlockByNumber x c1 number)))"

subsection \<open>The notions of the specification\<close>

text \<open>
  A block is fully cached when the hash of its number, and the body and the header of
  that hash, are all three in the caches; the value is the cached body and header.
\<close>

definition fully_cached :: "('b, 'h) BlockArchiverService \<Rightarrow> uint64 \<Rightarrow> ('b \<times> 'h) option" where
  "fully_cached c n =
     (case hashCache c n of
        None \<Rightarrow> None
      | Some h \<Rightarrow>
          (case (bodyCache c h, headerCache c h) of
             (Some b, Some hdr) \<Rightarrow> Some (b, hdr)
           | _ \<Rightarrow> None))"

text \<open>The state at the start of round \<open>k\<close> of the wait loop: after \<open>k\<close> sleeps.\<close>

fun round_state ::
  "('b, 'h) externals \<Rightarrow> ('b, 'h) BlockArchiverService \<Rightarrow> nat \<Rightarrow> ('b, 'h) BlockArchiverService" where
  "round_state x c 0 = c"
| "round_state x c (Suc k) = Sleep x (int k) (round_state x c k)"

text \<open>The events of a call: those the final state has beyond the initial one.\<close>

definition new_events ::
  "('b, 'h) BlockArchiverService \<Rightarrow> ('b, 'h) BlockArchiverService \<Rightarrow> event list" where
  "new_events c c' = drop (length (events c)) (events c')"

subsection \<open>Example states\<close>

text \<open>
  A service with empty caches and a new lock, bodies and headers being strings; externals
  with no other task at work, whose \<^verbatim>\<open>convertBlock\<close> fails on a \<^verbatim>\<open>nil\<close> block; and
  four remote services: one that cannot be reached, one that names the bundle
  \<^verbatim>\<open>"archive_s5_e7"\<close> and then answers the request for its blocks with status 500, one
  that names that bundle and returns one \<^verbatim>\<open>nil\<close> block for it, and one whose bundle
  name \<^verbatim>\<open>"archive_s1000"\<close> lacks the \<^verbatim>\<open>_e\<close> segment.
\<close>

definition ex_service :: "Client \<Rightarrow> (string, string) BlockArchiverService" where
  "ex_service cl =
     \<lparr>client = cl, bodyCache = Map.empty, headerCache = Map.empty, hashCache = Map.empty,
      requestLock = NewRequestLock, events = []\<rparr>"

definition ex_externals :: "(string, string) externals" where
  "ex_externals =
     \<lparr>convertBlock = (\<lambda>b. case b of
                              None \<Rightarrow> Err (ErrExternal ''nil block'')
                            | Some blk \<Rightarrow> Ok \<lparr>gb_Hash = 1, gb_NumberU64 = 6,
                                             gb_Body = ''body'', gb_Header = ''header''\<rparr>),
      HexToUint64 = (\<lambda>s. Inl (ErrExternal ''not a hex number'')),
      other_tasks = (\<lambda>k caches. caches)\<rparr>"

definition ex_client_down :: Client where
  "ex_client_down =
     \<lparr>bundleNameReply = (\<lambda>n. RequestFailed (ErrExternal ''connection refused'')),
      bundleBlocksReply = (\<lambda>n. RequestFailed (ErrExternal ''connection refused'')),
      blockByHashReply = (\<lambda>h. RequestFailed (ErrExternal ''connection refused''))\<rparr>"

definition ex_client_failing_bundle :: Client where
  "ex_client_failing_bundle =
     \<lparr>bundleNameReply = (\<lambda>n. Response 200 (Decoded ''archive_s5_e7'')),
      bundleBlocksReply = (\<lambda>n. Response 500 (Decoded [])),
      blockByHashReply = (\<lambda>h. Response 200 (Decoded None))\<rparr>"

definition ex_client_short_name :: Client where
  "ex_client_short_name =
     \<lparr>bundleNameReply = (\<lambda>n. Response 200 (Decoded ''archive_s1000'')),
      bundleBlocksReply = (\<lambda>n. Response 200 (Decoded [])),
      blockByHashReply = (\<lambda>h. Response 200 (Decoded None))\<rparr>"

definition ex_client_nil_block :: Client where
  "ex_client_nil_block =
     \<lparr>bundleNameReply = (\<lambda>n. Response 200 (Decoded ''archive_s5_e7'')),
      bundleBlocksReply = (\<lambda>n. Response 200 (Decoded [None])),
      blockByHashReply = (\<lambda>h. Response 200 (Decoded None))\<rparr>"

text \<open>
  Externals whose other tasks fill the three caches with block 6 during the first sleep,
  and a service whose lock holds the range \<open>[5, 7]\<close>, as while another task fetches it.
\<close>

definition ex_externals_filling :: "(string, string) externals" where
  "ex_externals_filling =
     ex_externals\<lparr>other_tasks := (\<lambda>k (bc, hc, nc).
        if k = 0 then (bc(1 \<mapsto> ''body''), hc(1 \<mapsto> ''header''), nc(6 \<mapsto> 1)) else (bc, hc, nc))\<rparr>"

definition ex_service_locked :: "(string, string) BlockArchiverService" where
  "ex_service_locked =
     (ex_service ex_client_down)
       \<lparr>requestLock := \<lparr>rangeMap = [5 \<mapsto> \<lparr>range_from = 5, range_to = 7\<rparr>],
                        lookupMap = [5 \<mapsto> True, 6 \<mapsto> True, 7 \<mapsto> True]\<rparr>\<rparr>"

section \<open>Properties of the request lock\<close>

subsection \<open>The two loops\<close>

lemma word_succ_interval:
  fixes i to x :: uint64
  assumes "i \<le> to" "to \<noteq> - 1"
  shows "(i + 1 \<le> x \<and> x \<le> to) = (x \<noteq> i \<and> i \<le> x \<and> x \<le> to)"
proof -
  have "i \<noteq> - 1" using assms by (metis word_order.extremum_unique)
  then have "(i + 1 \<le> x) = (i < x)" by (simp add: inc_less_eq_iff)
  then show ?thesis by auto
qed

lemma word_succ_measure:
  fixes i to :: uint64
  assumes "i \<le> to" "to \<noteq> - 1"
  shows "unat to + 1 - unat (i + 1) < unat to + 1 - unat i"
proof -
  have ne: "i \<noteq> - 1" using assms by (metis word_order.extremum_unique)
  then have "1 + i \<noteq> 0" by (metis add.commute max_word_wrap)
  then have "unat (i + 1) = Suc (unat i)" using unatSuc [of i] by (simp add: add.commute)
  moreover have "unat i \<le> unat to" using assms(1) by (simp add: word_le_nat_alt)
  ultimately show ?thesis by simp
qed

lemma AddRange_loop_result:
  "to \<noteq> - 1 \<Longrightarrow>
   AddRange_loop i to m = Some (\<lambda>x. if i \<le> x \<and> x \<le> to then Some True else m x)"
proof (induction "unat to + 1 - unat i" arbitrary: i m rule: less_induct)
  case less
  show ?case
  proof (cases "i \<le> to")
    case False
    then show ?thesis by (subst AddRange_loop.simps) (auto simp: fun_eq_iff)
  next
    case True
    have step: "AddRange_loop (i + 1) to (m(i \<mapsto> True)) =
          Some (\<lambda>x. if i + 1 \<le> x \<and> x \<le> to then Some True else (m(i \<mapsto> True)) x)"
      using less.hyps [OF word_succ_measure [OF True less.prems] less.prems] .
    have eq: "(\<lambda>x. if i + 1 \<le> x \<and> x \<le> to then Some True else (m(i \<mapsto> True)) x) =
          (\<lambda>x. if i \<le> x \<and> x \<le> to then Some True else m x)"
      unfolding word_succ_interval [OF True less.prems] using True by (auto simp: fun_eq_iff)
    show ?thesis by (subst AddRange_loop.simps) (simp only: True if_True step eq)
  qed
qed

lemma RemoveRange_loop_result:
  "to \<noteq> - 1 \<Longrightarrow>
   RemoveRange_loop i to m = Some (\<lambda>x. if i \<le> x \<and> x \<le> to then None else m x)"
proof (induction "unat to + 1 - unat i" arbitrary: i m rule: less_induct)
  case less
  show ?case
  proof (cases "i \<le> to")
    case False
    then show ?thesis by (subst RemoveRange_loop.simps) (auto simp: fun_eq_iff)
  next
    case True
    have step: "RemoveRange_loop (i + 1) to (m(i := None)) =
          Some (\<lambda>x. if i + 1 \<le> x \<and> x \<le> to then None else (m(i := None)) x)"
      using less.hyps [OF word_succ_measure [OF True less.prems] less.prems] .
    have eq: "(\<lambda>x. if i + 1 \<le> x \<and> x \<le> to then None else (m(i := None)) x) =
          (\<lambda>x. if i \<le> x \<and> x \<le> to then None else m x)"
      unfolding word_succ_interval [OF True less.prems] using True by (auto simp: fun_eq_iff)
    show ?thesis by (subst RemoveRange_loop.simps) (simp only: True if_True step eq)
  qed
qed

lemma AddRange_loop_Some_not_max: "AddRange_loop i to m = Some y \<Longrightarrow> to \<noteq> - 1"
  by (rule AddRange_loop.raw_induct [where P = "\<lambda>i to m y. to \<noteq> - 1"])
     (auto split: if_splits)

lemma RemoveRange_loop_Some_not_max: "RemoveRange_loop i to m = Some y \<Longrightarrow> to \<noteq> - 1"
  by (rule RemoveRange_loop.raw_induct [where P = "\<lambda>i to m y. to \<noteq> - 1"])
     (auto split: if_splits)


lemma unat_max_uint64: "unat (- 1 :: uint64) = 2 ^ 64 - 1"
  by (simp add: unsigned_minus_1_eq_mask mask_eq_exp_minus_1)

lemma word_not_max_iff: "(unat (to :: uint64) < 2 ^ 64 - 1) = (to \<noteq> - 1)"
proof -
  have "unat to < 2 ^ 64" using unsigned_less [of to, where 'a = nat] by simp
  then have "unat to \<le> 2 ^ 64 - 1" by simp
  then show ?thesis
    using unat_max_uint64 by (metis le_neq_implies_less less_not_refl word_unat_eq_iff)
qed

lemma word_max_iff: "(unat (to :: uint64) = 2 ^ 64 - 1) = (to = - 1)"
  using unat_max_uint64 by (metis word_unat_eq_iff)

lemma AddRange_result:
  "to \<noteq> - 1 \<Longrightarrow>
   AddRange rc frm to =
     Some \<lparr>rangeMap = (rangeMap rc)(frm \<mapsto> \<lparr>range_from = frm, range_to = to\<rparr>),
           lookupMap = (\<lambda>x. if frm \<le> x \<and> x \<le> to then Some True else lookupMap rc x)\<rparr>"
  by (simp add: AddRange_def AddRange_loop_result)

lemma RemoveRange_result:
  "to \<noteq> - 1 \<Longrightarrow>
   RemoveRange rc frm to =
     Some \<lparr>rangeMap = (rangeMap rc)(frm := None),
           lookupMap = (\<lambda>x. if frm \<le> x \<and> x \<le> to then None else lookupMap rc x)\<rparr>"
  by (simp add: RemoveRange_def RemoveRange_loop_result)

lemma AddRange_max: "AddRange rc frm (- 1) = None"
proof (cases "AddRange_loop frm (- 1) (lookupMap rc)")
  case None
  then show ?thesis by (simp add: AddRange_def)
next
  case (Some y)
  then show ?thesis using AddRange_loop_Some_not_max by blast
qed

lemma RemoveRange_max: "RemoveRange rc frm (- 1) = None"
proof (cases "RemoveRange_loop frm (- 1) (lookupMap rc)")
  case None
  then show ?thesis by (simp add: RemoveRange_def)
next
  case (Some y)
  then show ?thesis using RemoveRange_loop_Some_not_max by blast
qed

text \<open>
  Claim C9. \<open>AddRange\<close> and \<open>RemoveRange\<close> return for every \<open>from\<close> and every
  \<open>to < 2 ^ 64 - 1\<close>. When \<open>to\<close> is the largest \<^verbatim>\<open>uint64\<close>, the loop condition
  \<open>i \<le> to\<close> holds for every value of the counter, and neither method returns.
\<close>

theorem AddRange_RemoveRange_termination:
  "(unat to < 2 ^ 64 - 1 \<longrightarrow>
      (\<exists>rc'. AddRange rc frm to = Some rc') \<and> (\<exists>rc'. RemoveRange rc frm to = Some rc')) \<and>
   (unat to = 2 ^ 64 - 1 \<longrightarrow>
      (\<forall>i. i \<le> to) \<and> AddRange rc frm to = None \<and> RemoveRange rc frm to = None)"
proof (cases "to = - 1")
  case True
  then show ?thesis
    by (simp only: word_not_max_iff word_max_iff AddRange_max RemoveRange_max) simp
next
  case False
  then show ?thesis
    by (simp only: word_not_max_iff word_max_iff) (simp add: AddRange_result RemoveRange_result)
qed

theorem AddRange_RemoveRange_termination_witness:
  "unat (7 :: uint64) < 2 ^ 64 - 1 \<and>
   AddRange NewRequestLock 5 7 \<noteq> None \<and> RemoveRange NewRequestLock 5 7 \<noteq> None \<and>
   unat (- 1 :: uint64) = 2 ^ 64 - 1 \<and>
   AddRange NewRequestLock 5 (- 1) = None \<and> RemoveRange NewRequestLock 5 (- 1) = None"
  using AddRange_RemoveRange_termination [of 7 NewRequestLock 5]
    AddRange_RemoveRange_termination [of "- 1" NewRequestLock 5]
  by (simp only: word_not_max_iff word_max_iff) simp

text \<open>
  Claim C5. For \<open>from \<le> to\<close>, in the lock that \<open>AddRange from to\<close> returns,
  \<open>IsWithinAnyRange x\<close> is true for every \<open>x\<close> of the closed interval and keeps its
  former value for every \<open>x\<close> outside it; the call returns whenever \<open>to\<close> is not the
  largest \<^verbatim>\<open>uint64\<close>. The witness is the single-element range \<open>AddRange 5 5\<close> on a
  new lock: \<open>5\<close> is within a range, \<open>4\<close> and \<open>6\<close> are not.
\<close>

theorem AddRange_IsWithinAnyRange:
  assumes "frm \<le> to"
  shows "(to \<noteq> - 1 \<longrightarrow> AddRange rc frm to \<noteq> None) \<and>
         (\<forall>rc'. AddRange rc frm to = Some rc' \<longrightarrow>
            (\<forall>x. frm \<le> x \<and> x \<le> to \<longrightarrow> IsWithinAnyRange rc' x) \<and>
            (\<forall>x. \<not> (frm \<le> x \<and> x \<le> to) \<longrightarrow> IsWithinAnyRange rc' x = IsWithinAnyRange rc x))"
proof (cases "to = - 1")
  case True
  then show ?thesis by (simp add: AddRange_max)
next
  case False
  then show ?thesis by (auto simp: AddRange_result IsWithinAnyRange_def)
qed

theorem AddRange_IsWithinAnyRange_witness:
  "(5 :: uint64) \<le> 5 \<and>
   (\<exists>rc'. AddRange NewRequestLock 5 5 = Some rc' \<and>
      IsWithinAnyRange rc' 5 \<and> \<not> IsWithinAnyRange rc' 4 \<and> \<not> IsWithinAnyRange rc' 6)"
proof -
  have h: "(5 :: uint64) \<le> 5" by simp
  obtain rc' where r: "AddRange NewRequestLock 5 5 = Some rc'"
    using AddRange_IsWithinAnyRange [OF h, of NewRequestLock] by auto
  have "IsWithinAnyRange rc' 5" "IsWithinAnyRange rc' 4 = IsWithinAnyRange NewRequestLock 4"
    "IsWithinAnyRange rc' 6 = IsWithinAnyRange NewRequestLock 6"
    using AddRange_IsWithinAnyRange [OF h, of NewRequestLock] r by simp_all
  then show ?thesis using r by (simp add: IsWithinAnyRange_def NewRequestLock_def)
qed

lemma covered_iff:
  "(x \<in> covered rc) =
   (\<exists>k r. rangeMap rc k = Some r \<and> range_from r \<le> x \<and> x \<le> range_to r)"
  by (auto simp: covered_def ran_def)

lemma covered_NewRequestLock: "covered NewRequestLock = {}"
  by (simp add: covered_def NewRequestLock_def)

lemma lock_inv_NewRequestLock: "lock_inv NewRequestLock"
  by (simp add: lock_inv_def covered_NewRequestLock) (simp add: NewRequestLock_def)

lemma IsWithinAnyRange_dom: "IsWithinAnyRange rc x = (x \<in> dom (lookupMap rc))"
  by (auto simp: IsWithinAnyRange_def split: option.splits)

text \<open>
  Claim C6. For \<open>from \<le> to\<close> and a lock none of whose stored intervals shares an
  identifier with \<open>[from, to]\<close>, \<open>AddRange from to\<close> followed by \<open>RemoveRange from to\<close>
  leaves \<open>IsWithinAnyRange x\<close> false for every \<open>x\<close> of the interval. Both calls return
  whenever \<open>to\<close> is not the largest \<^verbatim>\<open>uint64\<close>, and on a lock that satisfies the
  invariant the pair of calls gives back every answer of \<open>IsWithinAnyRange\<close>.
\<close>

theorem AddRange_RemoveRange_roundtrip:
  assumes "frm \<le> to" and "{frm..to} \<inter> covered rc = {}"
  shows "(to \<noteq> - 1 \<longrightarrow>
            (\<exists>rc1 rc2. AddRange rc frm to = Some rc1 \<and> RemoveRange rc1 frm to = Some rc2)) \<and>
         (\<forall>rc1 rc2. AddRange rc frm to = Some rc1 \<and> RemoveRange rc1 frm to = Some rc2 \<longrightarrow>
            (\<forall>x. frm \<le> x \<and> x \<le> to \<longrightarrow> \<not> IsWithinAnyRange rc2 x) \<and>
            (lock_inv rc \<longrightarrow> (\<forall>x. IsWithinAnyRange rc2 x = IsWithinAnyRange rc x)))"
proof (cases "to = - 1")
  case True
  then show ?thesis by (simp add: AddRange_max)
next
  case False
  have out: "frm \<le> x \<and> x \<le> to \<Longrightarrow> lock_inv rc \<Longrightarrow> \<not> IsWithinAnyRange rc x" for x
    using assms(2) by (auto simp: IsWithinAnyRange_dom lock_inv_def)
  show ?thesis
    using False out
    by (auto simp: AddRange_result RemoveRange_result IsWithinAnyRange_def)
qed

theorem AddRange_RemoveRange_roundtrip_witness:
  "(5 :: uint64) \<le> 7 \<and> {5..7} \<inter> covered NewRequestLock = {} \<and>
   (\<exists>rc1 rc2. AddRange NewRequestLock 5 7 = Some rc1 \<and> RemoveRange rc1 5 7 = Some rc2 \<and>
      \<not> IsWithinAnyRange rc2 5 \<and> \<not> IsWithinAnyRange rc2 6 \<and> \<not> IsWithinAnyRange rc2 7)"
proof -
  have h1: "(5 :: uint64) \<le> 7" by simp
  have h2: "{5..7} \<inter> covered NewRequestLock = {}" by (simp add: covered_NewRequestLock)
  have ne: "(7 :: uint64) \<noteq> - 1" by simp
  note t = AddRange_RemoveRange_roundtrip [OF h1 h2]
  from t ne obtain rc1 rc2 where
    r: "AddRange NewRequestLock 5 7 = Some rc1 \<and> RemoveRange rc1 5 7 = Some rc2" by blast
  with t have "\<forall>x. 5 \<le> x \<and> x \<le> 7 \<longrightarrow> \<not> IsWithinAnyRange rc2 x" by blast
  then have "\<not> IsWithinAnyRange rc2 5 \<and> \<not> IsWithinAnyRange rc2 6 \<and> \<not> IsWithinAnyRange rc2 7"
    by simp
  with r h1 h2 show ?thesis by blast
qed

subsection \<open>The invariant along sequences of calls\<close>

lemma AddRange_keeps:
  assumes F: "compatible_ranges F" and s: "stored_in F rc" and i: "lock_inv rc"
    and m: "(frm, to) \<in> F"
  shows "\<exists>rc'. AddRange rc frm to = Some rc' \<and> stored_in F rc' \<and> lock_inv rc'"
proof -
  from F m have le: "frm \<le> to" and ne: "to \<noteq> - 1"
    by (auto simp: compatible_ranges_def)
  let ?rc = "\<lparr>rangeMap = (rangeMap rc)(frm \<mapsto> \<lparr>range_from = frm, range_to = to\<rparr>),
           lookupMap = (\<lambda>x. if frm \<le> x \<and> x \<le> to then Some True else lookupMap rc x)\<rparr>"
  have r: "AddRange rc frm to = Some ?rc" using ne by (rule AddRange_result)
  have s': "stored_in F ?rc" using s m by (auto simp: stored_in_def)
  have same: "range_to r = to" if "rangeMap rc frm = Some r" for r
  proof -
    from s that have "range_from r = frm" "(frm, range_to r) \<in> F" by (auto simp: stored_in_def)
    with F m le show ?thesis by (fastforce simp: compatible_ranges_def)
  qed
  have "x \<in> dom (lookupMap ?rc) \<longleftrightarrow> x \<in> covered ?rc" for x
  proof -
    have c: "(x \<in> covered rc) = (lookupMap rc x \<noteq> None)"
      using i unfolding lock_inv_def by (metis domIff)
    have "x \<in> dom (lookupMap ?rc) \<longleftrightarrow> (frm \<le> x \<and> x \<le> to) \<or> x \<in> covered rc"
      by (auto simp: dom_def c)
    also have "\<dots> \<longleftrightarrow> x \<in> covered ?rc"
    proof
      assume "(frm \<le> x \<and> x \<le> to) \<or> x \<in> covered rc"
      then show "x \<in> covered ?rc"
      proof
        assume "frm \<le> x \<and> x \<le> to"
        then show ?thesis by (auto simp: covered_iff)
      next
        assume "x \<in> covered rc"
        then obtain k r where kr: "rangeMap rc k = Some r" "range_from r \<le> x" "x \<le> range_to r"
          by (auto simp: covered_iff)
        show ?thesis
        proof (cases "k = frm")
          case True
          with kr s same have "frm \<le> x \<and> x \<le> to" by (auto simp: stored_in_def)
          then show ?thesis by (auto simp: covered_iff)
        next
          case False
          with kr show ?thesis unfolding covered_iff by (intro exI [of _ k] exI [of _ r]) simp
        qed
      qed
    next
      assume "x \<in> covered ?rc"
      then show "(frm \<le> x \<and> x \<le> to) \<or> x \<in> covered rc"
        by (auto simp: covered_iff split: if_splits)
    qed
    finally show ?thesis .
  qed
  then have "lock_inv ?rc" unfolding lock_inv_def by blast
  with r s' show ?thesis by blast
qed

lemma RemoveRange_keeps:
  assumes F: "compatible_ranges F" and s: "stored_in F rc" and i: "lock_inv rc"
    and m: "(frm, to) \<in> F"
  shows "\<exists>rc'. RemoveRange rc frm to = Some rc' \<and> stored_in F rc' \<and> lock_inv rc'"
proof -
  from F m have le: "frm \<le> to" and ne: "to \<noteq> - 1"
    by (auto simp: compatible_ranges_def)
  let ?rc = "\<lparr>rangeMap = (rangeMap rc)(frm := None),
           lookupMap = (\<lambda>x. if frm \<le> x \<and> x \<le> to then None else lookupMap rc x)\<rparr>"
  have r: "RemoveRange rc frm to = Some ?rc" using ne by (rule RemoveRange_result)
  have s': "stored_in F ?rc" using s by (auto simp: stored_in_def)
  have other: "range_to r < frm \<or> to < k" if "rangeMap rc k = Some r" "k \<noteq> frm" for k r
  proof -
    from s that have "range_from r = k" "(k, range_to r) \<in> F" by (auto simp: stored_in_def)
    with F m that(2) show ?thesis by (fastforce simp: compatible_ranges_def)
  qed
  have same: "range_to r = to" if "rangeMap rc frm = Some r" for r
  proof -
    from s that have "range_from r = frm" "(frm, range_to r) \<in> F" by (auto simp: stored_in_def)
    with F m le show ?thesis by (fastforce simp: compatible_ranges_def)
  qed
  have "x \<in> dom (lookupMap ?rc) \<longleftrightarrow> x \<in> covered ?rc" for x
  proof -
    have c: "(x \<in> covered rc) = (lookupMap rc x \<noteq> None)"
      using i unfolding lock_inv_def by (metis domIff)
    have "x \<in> dom (lookupMap ?rc) \<longleftrightarrow> \<not> (frm \<le> x \<and> x \<le> to) \<and> x \<in> covered rc"
      by (simp add: dom_def c)
    also have "\<dots> \<longleftrightarrow> x \<in> covered ?rc"
    proof
      assume a: "\<not> (frm \<le> x \<and> x \<le> to) \<and> x \<in> covered rc"
      then obtain k r where kr: "rangeMap rc k = Some r" "range_from r \<le> x" "x \<le> range_to r"
        by (auto simp: covered_iff)
      have "k \<noteq> frm"
      proof
        assume "k = frm"
        with kr s same have "frm \<le> x \<and> x \<le> to" by (auto simp: stored_in_def)
        with a show False by blast
      qed
      with kr show "x \<in> covered ?rc"
        unfolding covered_iff by (intro exI [of _ k] exI [of _ r]) simp
    next
      assume "x \<in> covered ?rc"
      then obtain k r where kr: "k \<noteq> frm" "rangeMap rc k = Some r"
        "range_from r \<le> x" "x \<le> range_to r"
        by (auto simp: covered_iff split: if_splits)
      from s kr have k: "range_from r = k" by (auto simp: stored_in_def)
      from other [OF kr(2) kr(1)] kr k have "\<not> (frm \<le> x \<and> x \<le> to)" by auto
      moreover from kr have "x \<in> covered rc" by (auto simp: covered_iff)
      ultimately show "\<not> (frm \<le> x \<and> x \<le> to) \<and> x \<in> covered rc" by blast
    qed
    finally show ?thesis .
  qed
  then have "lock_inv ?rc" unfolding lock_inv_def by blast
  with r s' show ?thesis by blast
qed

lemma lock_step_keeps:
  assumes "compatible_ranges F" "stored_in F rc" "lock_inv rc" "call_range c \<in> F"
  shows "\<exists>rc'. lock_step rc c = Some rc' \<and> stored_in F rc' \<and> lock_inv rc'"
  using assms by (cases c) (simp_all add: AddRange_keeps RemoveRange_keeps)

lemma lock_run_keeps:
  assumes "compatible_ranges F"
  shows "stored_in F rc \<Longrightarrow> lock_inv rc \<Longrightarrow> call_range ` set cs \<subseteq> F \<Longrightarrow>
         \<exists>rc'. lock_run rc cs = Some rc' \<and> stored_in F rc' \<and> lock_inv rc'"
proof (induction cs arbitrary: rc)
  case Nil
  then show ?case by simp
next
  case (Cons c cs)
  from Cons.prems have "call_range c \<in> F" by simp
  from lock_step_keeps [OF assms Cons.prems(1,2) this]
  obtain rc1 where st: "lock_step rc c = Some rc1" "stored_in F rc1" "lock_inv rc1" by blast
  from Cons.prems have "call_range ` set cs \<subseteq> F" by simp
  from Cons.IH [OF st(2,3) this] st(1) show ?case by simp
qed

text \<open>
  Claim C1, amended. On a new lock, for every sequence of \<open>AddRange\<close> and \<open>RemoveRange\<close>
  calls whose ranges have \<open>from \<le> to < 2 ^ 64 - 1\<close> and are pairwise either the same range
  or without a common identifier, every call returns and the invariant holds after each
  call (after every prefix of the sequence).
\<close>

theorem lock_inv_compatible_calls:
  assumes "compatible_calls cs" and "n \<le> length cs"
  shows "\<exists>rc'. lock_run NewRequestLock (take n cs) = Some rc' \<and> lock_inv rc'"
proof -
  have "stored_in (call_range ` set cs) NewRequestLock"
    by (simp add: stored_in_def NewRequestLock_def)
  moreover have "call_range ` set (take n cs) \<subseteq> call_range ` set cs"
    by (meson image_mono set_take_subset)
  ultimately show ?thesis
    using lock_run_keeps [OF assms(1) [unfolded compatible_calls_def] _ lock_inv_NewRequestLock]
    by blast
qed

theorem lock_inv_compatible_calls_witness:
  "compatible_calls [CallAddRange 100 102, CallAddRange 100 102, CallAddRange 5 5,
      CallRemoveRange 100 102, CallRemoveRange 100 102] \<and>
   (\<exists>rc'. lock_run NewRequestLock [CallAddRange 100 102, CallAddRange 100 102, CallAddRange 5 5,
      CallRemoveRange 100 102, CallRemoveRange 100 102] = Some rc' \<and> lock_inv rc')"
proof -
  let ?cs = "[CallAddRange 100 102, CallAddRange 100 102, CallAddRange 5 5,
      CallRemoveRange 100 102, CallRemoveRange 100 102]"
  have c: "compatible_calls ?cs"
    by (simp add: compatible_calls_def compatible_ranges_def)
  have n: "5 \<le> length ?cs" by simp
  from lock_inv_compatible_calls [OF c n] c show ?thesis by simp
qed

lemma lock_run_same_from:
  "lock_run NewRequestLock [CallAddRange 1 3, CallAddRange 1 2] =
     Some \<lparr>rangeMap = [1 \<mapsto> \<lparr>range_from = 1, range_to = 2\<rparr>],
           lookupMap = (\<lambda>x. if 1 \<le> x \<and> x \<le> 2 then Some True
                             else if 1 \<le> x \<and> x \<le> 3 then Some True else None)\<rparr>"
  by (auto simp: AddRange_result NewRequestLock_def fun_eq_iff)

lemma lock_run_overlap:
  "lock_run NewRequestLock [CallAddRange 1 3, CallAddRange 2 4, CallRemoveRange 1 3] =
     Some \<lparr>rangeMap = [2 \<mapsto> \<lparr>range_from = 2, range_to = 4\<rparr>],
           lookupMap = (\<lambda>x. if 1 \<le> x \<and> x \<le> 3 then None
                             else if 2 \<le> x \<and> x \<le> 4 then Some True
                             else if 1 \<le> x \<and> x \<le> 3 then Some True else None)\<rparr>"
  by (auto simp: AddRange_result RemoveRange_result NewRequestLock_def fun_eq_iff)

text \<open>
  Claim C1 as stated fails. Two ranges with the same \<open>from\<close>: after \<open>AddRange 1 3\<close> and
  \<open>AddRange 1 2\<close> the only stored interval is \<open>[1, 2]\<close>, yet \<open>3\<close> is still in \<open>lookupMap\<close>.
  Two overlapping ranges: after \<open>AddRange 1 3\<close>, \<open>AddRange 2 4\<close> and \<open>RemoveRange 1 3\<close> the
  interval \<open>[2, 4]\<close> is stored, yet \<open>2\<close> is no longer in \<open>lookupMap\<close>.
\<close>

theorem lock_inv_overlap_counterexample:
  "map_option lock_inv (lock_run NewRequestLock [CallAddRange 1 3, CallAddRange 1 2]) = Some False \<and>
   map_option lock_inv
     (lock_run NewRequestLock [CallAddRange 1 3, CallAddRange 2 4, CallRemoveRange 1 3]) = Some False"
proof -
  let ?A = "\<lparr>rangeMap = [1 \<mapsto> \<lparr>range_from = 1, range_to = 2\<rparr>],
           lookupMap = (\<lambda>x :: uint64. if 1 \<le> x \<and> x \<le> 2 then Some True
                             else if 1 \<le> x \<and> x \<le> 3 then Some True else None)\<rparr>"
  have "3 \<in> dom (lookupMap ?A)" by (simp add: domIff)
  moreover have "3 \<notin> covered ?A" by (simp add: covered_def)
  ultimately have a: "lock_inv ?A = False" unfolding lock_inv_def by blast
  let ?B = "\<lparr>rangeMap = [2 \<mapsto> \<lparr>range_from = 2, range_to = 4\<rparr>],
           lookupMap = (\<lambda>x :: uint64. if 1 \<le> x \<and> x \<le> 3 then None
                             else if 2 \<le> x \<and> x \<le> 4 then Some True
                             else if 1 \<le> x \<and> x \<le> 3 then Some True else None)\<rparr>"
  have "2 \<notin> dom (lookupMap ?B)" by (simp add: domIff)
  moreover have "2 \<in> covered ?B" by (simp add: covered_def)
  ultimately have b: "lock_inv ?B = False" unfolding lock_inv_def by blast
  show ?thesis
    unfolding lock_run_same_from lock_run_overlap option.map a b by (rule conjI) (rule refl)+
qed

section \<open>Properties of the bundle-name parser\<close>

subsection \<open>Splitting\<close>

lemma strings_Split_no_sep: "sep \<notin> set p \<Longrightarrow> strings_Split p sep = [p]"
  by (induction p) auto

lemma strings_Split_append:
  "sep \<notin> set p \<Longrightarrow> strings_Split (p @ sep # r) sep = p # strings_Split r sep"
  by (induction p) auto

subsection \<open>Parsing a decimal number\<close>

lemma decimal_from_Cons: "decimal_from a (c # cs) = decimal_from (10 * a + digit_of c) cs"
  by (simp add: decimal_from_def)

lemma decimal_from_ge: "a \<le> decimal_from a ds"
proof (induction ds arbitrary: a)
  case Nil
  then show ?case by (simp add: decimal_from_def)
next
  case (Cons c cs)
  have "a \<le> 10 * a + digit_of c" by simp
  also have "\<dots> \<le> decimal_from (10 * a + digit_of c) cs" by (rule Cons.IH)
  finally show ?case by (simp add: decimal_from_Cons)
qed

lemma unat_of_nat_uint64: "v < 2 ^ 64 \<Longrightarrow> unat (of_nat v :: uint64) = v"
  using of_nat_inverse [of v "of_nat v :: uint64"] by simp

lemma ParseUint_cutoff_unat: "unat ParseUint_cutoff = 1844674407370955162"
  by (simp add: ParseUint_cutoff_def)

lemma ParseUint_loop_decimal:
  "list_all is_digit ds \<Longrightarrow> decimal_from v ds < 2 ^ 64 \<Longrightarrow>
   ParseUint_loop s0 (of_nat v) ds = Inr (of_nat (decimal_from v ds))"
proof (induction ds arbitrary: v)
  case Nil
  then show ?case by (simp add: decimal_from_def)
next
  case (Cons c cs)
  let ?w = "10 * v + digit_of c"
  from Cons.prems have dig: "is_digit c" and rest: "list_all is_digit cs" by simp_all
  from Cons.prems have bound: "decimal_from ?w cs < 2 ^ 64" by (simp add: decimal_from_Cons)
  have w: "?w < 2 ^ 64" using decimal_from_ge [of ?w cs] bound by simp
  then have v: "v < 2 ^ 64" and v10: "10 * v < 2 ^ 64" by simp_all
  have cut: "\<not> (of_nat v :: uint64) \<ge> ParseUint_cutoff"
    using w by (simp add: word_le_nat_alt ParseUint_cutoff_unat unat_of_nat_uint64 [OF v])
  have n': "(of_nat v :: uint64) * 10 = of_nat (10 * v)" by simp
  have n1: "(of_nat (10 * v) :: uint64) + of_nat (digit_of c) = of_nat ?w" by simp
  have wrap: "\<not> (of_nat ?w :: uint64) < of_nat (10 * v)"
    by (simp only: word_less_nat_alt unat_of_nat_uint64 [OF w] unat_of_nat_uint64 [OF v10])
  have "ParseUint_loop s0 (of_nat v) (c # cs) = ParseUint_loop s0 (of_nat ?w) cs"
    using dig cut wrap by (simp only: ParseUint_loop.simps Let_def n' n1 if_False if_True simp_thms)
  also have "\<dots> = Inr (of_nat (decimal_from ?w cs))" by (rule Cons.IH [OF rest bound])
  finally show ?case by (simp only: decimal_from_Cons)
qed

lemma ParseUint_decimal:
  assumes "is_decimal ds" and "decimal_value ds < 2 ^ 64"
  shows "ParseUint ds = Inr (of_nat (decimal_value ds))"
proof -
  from assms(1) have ne: "ds \<noteq> []" and dig: "list_all is_digit ds" by (simp_all add: is_decimal_def)
  from ParseUint_loop_decimal [OF dig, of 0 ds] assms(2) ne show ?thesis
    by (simp add: ParseUint_def decimal_value_def)
qed

lemma is_digit_not_underscore: "is_digit c \<Longrightarrow> c \<noteq> CHR ''_''"
  by (auto simp: is_digit_def)

lemma is_decimal_no_underscore: "is_decimal ds \<Longrightarrow> CHR ''_'' \<notin> set ds"
  by (auto simp: is_decimal_def list_all_iff dest: is_digit_not_underscore)

text \<open>
  Claim C7, amended. For a name \<open>prefix_s<start>_e<end>\<close> whose prefix holds no underscore
  and whose \<open>start\<close> and \<open>end\<close> are non-empty strings of decimal digits with values below
  \<open>2 ^ 64\<close>, the parse returns those two numbers and no error. The witness is
  \<^verbatim>\<open>"archive_s1000_e1999"\<close>, which gives 1000 and 1999.
\<close>

theorem GetBundleBlocksRange_parse_well_formed:
  assumes "CHR ''_'' \<notin> set prefix"
    and "is_decimal ds" and "decimal_value ds < 2 ^ 64"
    and "is_decimal de" and "decimal_value de < 2 ^ 64"
  shows "GetBundleBlocksRange_parse (prefix @ ''_s'' @ ds @ ''_e'' @ de) =
           Ok (of_nat (decimal_value ds), of_nat (decimal_value de)) \<and>
         unat (of_nat (decimal_value ds) :: uint64) = decimal_value ds \<and>
         unat (of_nat (decimal_value de) :: uint64) = decimal_value de"
proof -
  have s1: "CHR ''_'' \<notin> set (CHR ''s'' # ds)" and s2: "CHR ''_'' \<notin> set (CHR ''e'' # de)"
    using is_decimal_no_underscore [OF assms(2)] is_decimal_no_underscore [OF assms(4)]
    by simp_all
  have "prefix @ ''_s'' @ ds @ ''_e'' @ de =
        prefix @ CHR ''_'' # ((CHR ''s'' # ds) @ CHR ''_'' # (CHR ''e'' # de))" by simp
  then have parts: "strings_Split (prefix @ ''_s'' @ ds @ ''_e'' @ de) (CHR ''_'') =
        [prefix, CHR ''s'' # ds, CHR ''e'' # de]"
    by (simp only: strings_Split_append [OF assms(1)] strings_Split_append [OF s1]
        strings_Split_no_sep [OF s2])
  have "GetBundleBlocksRange_parse (prefix @ ''_s'' @ ds @ ''_e'' @ de) =
           Ok (of_nat (decimal_value ds), of_nat (decimal_value de))"
    unfolding GetBundleBlocksRange_parse_def parts
    by (simp add: go_index_def go_slice_from_def
        ParseUint_decimal [OF assms(2,3)] ParseUint_decimal [OF assms(4,5)])
  then show ?thesis
    using assms(3,5) by (simp add: unat_of_nat_uint64)
qed

theorem GetBundleBlocksRange_parse_well_formed_witness:
  "CHR ''_'' \<notin> set ''archive'' \<and> is_decimal ''1000'' \<and> decimal_value ''1000'' < 2 ^ 64 \<and>
   is_decimal ''1999'' \<and> decimal_value ''1999'' < 2 ^ 64 \<and>
   GetBundleBlocksRange_parse ''archive_s1000_e1999'' = Ok (1000, 1999)"
proof -
  have h1: "CHR ''_'' \<notin> set ''archive''" by simp
  have h2: "is_decimal ''1000''" and h4: "is_decimal ''1999''"
    by (simp_all add: is_decimal_def is_digit_def)
  have v2: "decimal_value ''1000'' = 1000" and v4: "decimal_value ''1999'' = 1999"
    by (simp_all add: decimal_value_def decimal_from_def digit_of_def)
  have h3: "decimal_value ''1000'' < 2 ^ 64" and h5: "decimal_value ''1999'' < 2 ^ 64"
    by (simp_all add: v2 v4)
  from GetBundleBlocksRange_parse_well_formed [OF h1 h2 h3 h4 h5] h1 h2 h3 h4 h5
  show ?thesis by (simp add: v2 v4)
qed

text \<open>
  Claim C7 as stated fails: the parts are taken at the fixed positions 1 and 2, so a
  prefix with an underscore moves the numbers away (\<^verbatim>\<open>"my_archive_s1000_e1999"\<close> is a
  syntax error on \<^verbatim>\<open>"rchive"\<close>), and a decimal number of \<open>2 ^ 64\<close> or more is a range
  error.
\<close>

theorem GetBundleBlocksRange_parse_counterexample:
  "GetBundleBlocksRange_parse ''my_archive_s1000_e1999'' = Err (ErrSyntax ''rchive'') \<and>
   GetBundleBlocksRange_parse ''archive_s1000_e18446744073709551616'' =
     Err (ErrRange ''18446744073709551616'')"
  by code_simp

text \<open>
  Claim C2 says that a bundle name which does not yield two numbers gives an error and
  no panic. The code panics: without the \<open>_e\<close> segment \<^verbatim>\<open>parts[2]\<close> is out of range, with
  no underscore at all \<^verbatim>\<open>parts[1]\<close> is, and an empty part makes \<^verbatim>\<open>[1:]\<close> a slice out of
  bounds.
\<close>

theorem GetBundleBlocksRange_parse_malformed_panics:
  "GetBundleBlocksRange_parse ''archive_s1000'' = Panic (IndexOutOfRange 2 2) \<and>
   GetBundleBlocksRange_parse ''archive'' = Panic (IndexOutOfRange 1 1) \<and>
   GetBundleBlocksRange_parse ''archive__e1999'' = Panic (SliceBoundsOutOfRange 1 0) \<and>
   GetBundleBlocksRange ex_client_short_name 1500 = Panic (IndexOutOfRange 2 2)"
  by code_simp

section \<open>Properties of the block archiver service\<close>

subsection \<open>The cache check\<close>

text \<open>
  Claim C8. When the hash of \<open>n\<close> and the body and header of that hash are all in the
  caches, \<open>GetBlockByNumber n\<close> returns that body and header with no error and leaves the
  state as it was: no operation on the request lock, no request to the remote service.
  When one of the three is missing, also when only the body or only the header is, the
  call is the call of \<open>getBlockByNumber\<close>, the fetch and wait path.
\<close>

theorem GetBlockByNumber_cache_check:
  "(hashCache c n = Some h \<and> bodyCache c h = Some b \<and> headerCache c h = Some hdr \<longrightarrow>
      GetBlockByNumber x c n = Some (c, Ok (Some b, Some hdr))) \<and>
   (hashCache c n = None \<or>
    (hashCache c n = Some h \<and> (bodyCache c h = None \<or> headerCache c h = None)) \<longrightarrow>
      GetBlockByNumber x c n = getBlockByNumber x c n)"
  by (auto simp: GetBlockByNumber_def split: option.splits)

lemma ex_parse: "GetBundleBlocksRange_parse ''archive_s5_e7'' = Ok (5, 7)"
  by code_simp

lemma ex_range_failing: "GetBundleBlocksRange ex_client_failing_bundle n = Ok (5, 7)"
  by (simp add: GetBundleBlocksRange_def ex_client_failing_bundle_def ex_parse)

lemma ex_range_nil: "GetBundleBlocksRange ex_client_nil_block n = Ok (5, 7)"
  by (simp add: GetBundleBlocksRange_def ex_client_nil_block_def ex_parse)

lemma ex_range_down:
  "GetBundleBlocksRange ex_client_down n = Err (ErrExternal ''connection refused'')"
  by (simp add: GetBundleBlocksRange_def ex_client_down_def)

theorem GetBlockByNumber_cache_check_witness:
  "GetBlockByNumber ex_externals
     ((ex_service ex_client_down)\<lparr>hashCache := [7 \<mapsto> 171], bodyCache := [171 \<mapsto> ''body 7''],
        headerCache := [171 \<mapsto> ''header 7'']\<rparr>) 7 =
   Some ((ex_service ex_client_down)\<lparr>hashCache := [7 \<mapsto> 171], bodyCache := [171 \<mapsto> ''body 7''],
        headerCache := [171 \<mapsto> ''header 7'']\<rparr>, Ok (Some ''body 7'', Some ''header 7'')) \<and>
   GetBlockByNumber ex_externals
     ((ex_service ex_client_down)\<lparr>hashCache := [7 \<mapsto> 171], headerCache := [171 \<mapsto> ''header 7'']\<rparr>) 7 =
   Some ((ex_service ex_client_down)\<lparr>hashCache := [7 \<mapsto> 171], headerCache := [171 \<mapsto> ''header 7''],
        events := [EvIsWithinAnyRange 7, EvGetBundleBlocksRange 7]\<rparr>,
      Err (ErrExternal ''connection refused''))"
proof -
  let ?hit = "(ex_service ex_client_down)\<lparr>hashCache := [7 \<mapsto> 171],
        bodyCache := [171 \<mapsto> ''body 7''], headerCache := [171 \<mapsto> ''header 7'']\<rparr>"
  let ?miss = "(ex_service ex_client_down)\<lparr>hashCache := [7 \<mapsto> 171],
        headerCache := [171 \<mapsto> ''header 7'']\<rparr>"
  have "GetBlockByNumber ex_externals ?hit 7 = Some (?hit, Ok (Some ''body 7'', Some ''header 7''))"
    using GetBlockByNumber_cache_check [of ?hit 7 171 "''body 7''" "''header 7''" ex_externals]
    by (simp add: ex_service_def)
  moreover have "GetBlockByNumber ex_externals ?miss 7 = getBlockByNumber ex_externals ?miss 7"
    using GetBlockByNumber_cache_check [of ?miss 7 171 "''b''" "''h''" ex_externals]
    by (simp add: ex_service_def)
  moreover have "getBlockByNumber ex_externals ?miss 7 =
    Some (?miss\<lparr>events := [EvIsWithinAnyRange 7, EvGetBundleBlocksRange 7]\<rparr>,
      Err (ErrExternal ''connection refused''))"
    by (simp add: getBlockByNumber_def emit_def ex_service_def IsWithinAnyRange_def
        NewRequestLock_def ex_range_down)
  ultimately show ?thesis by simp
qed

subsection \<open>Lookup by hash\<close>

text \<open>
  Claim C10. When the body and the header of a hash are not both cached and the client's
  \<open>GetBlockByHash\<close> succeeds with a \<^verbatim>\<open>nil\<close> block, the service's \<open>GetBlockByHash\<close> returns
  \<^verbatim>\<open>(nil, nil, nil)\<close>: no body, no header and no error, after that one request.
\<close>

theorem GetBlockByHash_nil_block:
  assumes "\<not> (\<exists>b hdr. bodyCache c h = Some b \<and> headerCache c h = Some hdr)"
    and "Client_GetBlockByHash (client c) h = Inr None"
  shows "GetBlockByHash x c h = Some (emit (EvClientGetBlockByHash h) c, Ok (None, None))"
proof -
  have cl: "client (emit (EvClientGetBlockByHash h) c) = client c" by (simp add: emit_def)
  show ?thesis
    using assms by (auto simp: GetBlockByHash_def cl split: option.splits)
qed

theorem GetBlockByHash_nil_block_witness:
  "\<not> (\<exists>b hdr. bodyCache (ex_service ex_client_nil_block) 9 = Some b \<and>
        headerCache (ex_service ex_client_nil_block) 9 = Some hdr) \<and>
   Client_GetBlockByHash (client (ex_service ex_client_nil_block)) 9 = Inr None \<and>
   GetBlockByHash ex_externals (ex_service ex_client_nil_block) 9 =
     Some ((ex_service ex_client_nil_block)\<lparr>events := [EvClientGetBlockByHash 9]\<rparr>, Ok (None, None))"
proof -
  have h1: "\<not> (\<exists>b hdr. bodyCache (ex_service ex_client_nil_block) 9 = Some b \<and>
        headerCache (ex_service ex_client_nil_block) 9 = Some hdr)"
    by (simp add: ex_service_def)
  have h2: "Client_GetBlockByHash (client (ex_service ex_client_nil_block)) 9 = Inr None"
    by (simp add: ex_service_def Client_GetBlockByHash_def postRequest_decode_def
        ex_client_nil_block_def)
  from GetBlockByHash_nil_block [OF h1 h2, of ex_externals] h1 h2 show ?thesis
    by (simp add: emit_def ex_service_def)
qed

subsection \<open>The wait loop\<close>

lemma emit_fields [simp]:
  "client (emit e c) = client c" "bodyCache (emit e c) = bodyCache c"
  "headerCache (emit e c) = headerCache c" "hashCache (emit e c) = hashCache c"
  "requestLock (emit e c) = requestLock c" "events (emit e c) = events c @ [e]"
  by (simp_all add: emit_def)

lemma fully_cached_emit [simp]: "fully_cached (emit e c) n = fully_cached c n"
  by (simp add: fully_cached_def split: option.splits)

lemma Sleep_events: "events (Sleep x k c) = events c @ [EvSleep GetBlockRetryInterval]"
  by (simp add: Sleep_def split: prod.splits)

lemma Sleep_lock: "requestLock (Sleep x k c) = requestLock c"
  by (simp add: Sleep_def split: prod.splits)

lemma round_state_events:
  "events (round_state x c k) = events c @ replicate k (EvSleep GetBlockRetryInterval)"
  by (induction k) (simp_all add: Sleep_events replicate_append_same)

lemma waitLoop_found:
  "retry < GetBlockRetry \<Longrightarrow> fully_cached c n = Some (b, hdr) \<Longrightarrow>
   waitLoop x retry c n = (c, Ok (Some b, Some hdr))"
  by (subst waitLoop.simps) (auto simp: fully_cached_def split: option.splits)

lemma waitLoop_miss:
  "retry < GetBlockRetry \<Longrightarrow> fully_cached c n = None \<Longrightarrow>
   waitLoop x retry c n = waitLoop x (retry + 1) (Sleep x retry c) n"
  by (subst waitLoop.simps) (auto simp: fully_cached_def split: option.splits)

lemma waitLoop_exhausted:
  "\<not> retry < GetBlockRetry \<Longrightarrow> waitLoop x retry c n = (c, Err ErrBlockNotFound)"
  by (subst waitLoop.simps) simp

lemma waitLoop_rounds:
  "\<exists>k\<le>3. waitLoop x 0 c n =
      (round_state x c k,
       if k < 3 then Ok (map_option fst (fully_cached (round_state x c k) n),
                         map_option snd (fully_cached (round_state x c k) n))
       else Err ErrBlockNotFound) \<and>
     (k < 3 \<longrightarrow> fully_cached (round_state x c k) n \<noteq> None) \<and>
     (\<forall>j<k. fully_cached (round_state x c j) n = None)"
proof -
  have r: "(0::int) < GetBlockRetry" "(1::int) < GetBlockRetry" "(2::int) < GetBlockRetry"
    "\<not> (3::int) < GetBlockRetry"
    by (simp_all add: GetBlockRetry_def)
  let ?s = "round_state x c"
  have s1: "?s 1 = Sleep x 0 (?s 0)" and s2: "?s 2 = Sleep x 1 (?s 1)"
    and s3: "?s 3 = Sleep x 2 (?s 2)"
    by (simp_all add: numeral_2_eq_2 numeral_3_eq_3)
  show ?thesis
  proof (cases "fully_cached (?s 0) n")
    case (Some p)
    then have "waitLoop x 0 c n = (?s 0, Ok (Some (fst p), Some (snd p)))"
      using waitLoop_found [OF r(1), of c n "fst p" "snd p" x] by simp
    with Some show ?thesis by (intro exI [of _ 0]) simp
  next
    case n0: None
    then have w0: "waitLoop x 0 c n = waitLoop x 1 (?s 1) n"
      using waitLoop_miss [OF r(1), of c n x] by simp
    show ?thesis
    proof (cases "fully_cached (?s 1) n")
      case (Some p)
      then have "waitLoop x 1 (?s 1) n = (?s 1, Ok (Some (fst p), Some (snd p)))"
        using waitLoop_found [OF r(2), of "?s 1" n "fst p" "snd p" x] by simp
      with Some n0 w0 show ?thesis by (intro exI [of _ 1]) simp
    next
      case n1: None
      then have w1: "waitLoop x 1 (?s 1) n = waitLoop x 2 (?s 2) n"
        using waitLoop_miss [OF r(2), of "?s 1" n x] by (simp add: s2)
      show ?thesis
      proof (cases "fully_cached (?s 2) n")
        case (Some p)
        then have "waitLoop x 2 (?s 2) n = (?s 2, Ok (Some (fst p), Some (snd p)))"
          using waitLoop_found [OF r(3), of "?s 2" n "fst p" "snd p" x] by simp
        with Some n0 n1 w0 w1 show ?thesis
          by (intro exI [of _ 2]) (simp add: less_Suc_eq numeral_2_eq_2)
      next
        case n2: None
        then have w2: "waitLoop x 2 (?s 2) n = waitLoop x 3 (?s 3) n"
          using waitLoop_miss [OF r(3), of "?s 2" n x] by (simp add: s3)
        have "waitLoop x 3 (?s 3) n = (?s 3, Err ErrBlockNotFound)"
          by (rule waitLoop_exhausted [OF r(4)])
        with n0 n1 n2 w0 w1 w2 show ?thesis
          by (intro exI [of _ 3]) (simp add: less_Suc_eq numeral_3_eq_3 numeral_2_eq_2)
      qed
    qed
  qed
qed

text \<open>
  Claim C4. When \<open>IsWithinAnyRange n\<close> holds at entry, \<open>getBlockByNumber\<close> returns after
  \<open>k \<le> 3\<close> rounds of a cache check followed by a sleep of two seconds, in which every
  check missed. For \<open>k < 3\<close> the check of round \<open>k\<close> found hash, body and header, and that
  body and header are returned with no error; for \<open>k = 3\<close> the error is
  \<^verbatim>\<open>"block not found"\<close>. The events of the call are the lock check and the \<open>k\<close> sleeps: no
  request to the remote service, and no error of the transport.
\<close>

theorem getBlockByNumber_wait:
  assumes "IsWithinAnyRange (requestLock c) n"
  shows "\<exists>c' r k. getBlockByNumber x c n = Some (c', r) \<and> k \<le> 3 \<and>
           c' = round_state x (emit (EvIsWithinAnyRange n) c) k \<and>
           new_events c c' = EvIsWithinAnyRange n # replicate k (EvSleep (2 * 1000000000)) \<and>
           (\<forall>j<k. fully_cached (round_state x (emit (EvIsWithinAnyRange n) c) j) n = None) \<and>
           (if k < 3 then \<exists>b hdr. fully_cached c' n = Some (b, hdr) \<and> r = Ok (Some b, Some hdr)
            else r = Err ErrBlockNotFound)"
proof -
  let ?c0 = "emit (EvIsWithinAnyRange n) c"
  from waitLoop_rounds [of x ?c0 n] obtain k where k: "k \<le> 3"
    and w: "waitLoop x 0 ?c0 n =
      (round_state x ?c0 k,
       if k < 3 then Ok (map_option fst (fully_cached (round_state x ?c0 k) n),
                         map_option snd (fully_cached (round_state x ?c0 k) n))
       else Err ErrBlockNotFound)"
    and f: "k < 3 \<longrightarrow> fully_cached (round_state x ?c0 k) n \<noteq> None"
    and m: "\<forall>j<k. fully_cached (round_state x ?c0 j) n = None"
    by blast
  have g: "getBlockByNumber x c n = Some (waitLoop x 0 ?c0 n)"
    using assms by (simp add: getBlockByNumber_def Let_def)
  have e: "new_events c (round_state x ?c0 k) =
        EvIsWithinAnyRange n # replicate k (EvSleep (2 * 1000000000))"
    by (simp add: new_events_def round_state_events GetBlockRetryInterval_def Second_def)
  show ?thesis
  proof (cases "k < 3")
    case True
    with f obtain b hdr where "fully_cached (round_state x ?c0 k) n = Some (b, hdr)" by auto
    with True g w k e m show ?thesis by auto
  next
    case False
    with g w k e m show ?thesis by auto
  qed
qed

lemma ex_wait_exhausted:
  "\<exists>c'. getBlockByNumber ex_externals ex_service_locked 6 = Some (c', Err ErrBlockNotFound)"
  by (simp add: getBlockByNumber_def ex_service_locked_def ex_service_def IsWithinAnyRange_def
      waitLoop.simps GetBlockRetry_def Sleep_def ex_externals_def emit_def)

lemma ex_wait_filled:
  "\<exists>c'. getBlockByNumber ex_externals_filling ex_service_locked 6 =
      Some (c', Ok (Some ''body'', Some ''header''))"
  by (simp add: getBlockByNumber_def ex_service_locked_def ex_service_def IsWithinAnyRange_def
      waitLoop.simps GetBlockRetry_def Sleep_def ex_externals_filling_def ex_externals_def emit_def)

theorem getBlockByNumber_wait_witness:
  "IsWithinAnyRange (requestLock ex_service_locked) 6 \<and>
   (\<exists>c'. getBlockByNumber ex_externals ex_service_locked 6 = Some (c', Err ErrBlockNotFound) \<and>
      new_events ex_service_locked c' =
        [EvIsWithinAnyRange 6, EvSleep 2000000000, EvSleep 2000000000, EvSleep 2000000000]) \<and>
   (\<exists>c'. getBlockByNumber ex_externals_filling ex_service_locked 6 =
        Some (c', Ok (Some ''body'', Some ''header'')) \<and>
      new_events ex_service_locked c' = [EvIsWithinAnyRange 6, EvSleep 2000000000])"
proof -
  have h: "IsWithinAnyRange (requestLock ex_service_locked) 6"
    by (simp add: ex_service_locked_def IsWithinAnyRange_def)
  have three: "replicate 3 e = [e, e, e]" for e :: event by (simp add: numeral_3_eq_3)
  have cases3: "k = 0 \<or> k = 1 \<or> k = 2" if "k < 3" for k :: nat using that by linarith
  let ?c0 = "emit (EvIsWithinAnyRange 6) ex_service_locked"
  have a: "\<exists>c'. getBlockByNumber ex_externals ex_service_locked 6 = Some (c', Err ErrBlockNotFound) \<and>
      new_events ex_service_locked c' =
        [EvIsWithinAnyRange 6, EvSleep 2000000000, EvSleep 2000000000, EvSleep 2000000000]"
  proof -
    from getBlockByNumber_wait [OF h, of ex_externals] obtain c' r k where
      g: "getBlockByNumber ex_externals ex_service_locked 6 = Some (c', r)" and "k \<le> 3"
      and e: "new_events ex_service_locked c' =
                EvIsWithinAnyRange 6 # replicate k (EvSleep (2 * 1000000000))"
      and i: "if k < 3 then \<exists>b hdr. fully_cached c' 6 = Some (b, hdr) \<and> r = Ok (Some b, Some hdr)
              else r = Err ErrBlockNotFound"
      by blast
    from g ex_wait_exhausted have r: "r = Err ErrBlockNotFound" by auto
    with i have "\<not> k < 3" by (auto split: if_splits)
    with \<open>k \<le> 3\<close> have "k = 3" by simp
    with g r e show ?thesis by (simp add: three)
  qed
  have b: "\<exists>c'. getBlockByNumber ex_externals_filling ex_service_locked 6 =
        Some (c', Ok (Some ''body'', Some ''header'')) \<and>
      new_events ex_service_locked c' = [EvIsWithinAnyRange 6, EvSleep 2000000000]"
  proof -
    from getBlockByNumber_wait [OF h, of ex_externals_filling] obtain c' r k where
      g: "getBlockByNumber ex_externals_filling ex_service_locked 6 = Some (c', r)" and "k \<le> 3"
      and c': "c' = round_state ex_externals_filling ?c0 k"
      and e: "new_events ex_service_locked c' =
                EvIsWithinAnyRange 6 # replicate k (EvSleep (2 * 1000000000))"
      and m: "\<forall>j<k. fully_cached (round_state ex_externals_filling ?c0 j) 6 = None"
      and i: "if k < 3 then \<exists>b hdr. fully_cached c' 6 = Some (b, hdr) \<and> r = Ok (Some b, Some hdr)
              else r = Err ErrBlockNotFound"
      by blast
    from g ex_wait_filled have r: "r = Ok (Some ''body'', Some ''header'')" by auto
    with i have k3: "k < 3" by (auto split: if_splits)
    have f0: "fully_cached (round_state ex_externals_filling ?c0 0) 6 = None"
      by (simp add: fully_cached_def ex_service_locked_def ex_service_def)
    have f1: "fully_cached (round_state ex_externals_filling ?c0 1) 6 \<noteq> None"
      by (simp add: fully_cached_def ex_service_locked_def ex_service_def Sleep_def
          ex_externals_filling_def ex_externals_def)
    have "k \<noteq> 0"
    proof
      assume "k = 0"
      with c' f0 have "fully_cached c' 6 = None" by simp
      with i k3 show False by auto
    qed
    moreover have "k \<noteq> 2"
    proof
      assume "k = 2"
      then have "(1::nat) < k" by simp
      with m have "fully_cached (round_state ex_externals_filling ?c0 1) 6 = None" by blast
      with f1 show False by blast
    qed
    ultimately have "k = 1" using cases3 [OF k3] by simp
    with g r e show ?thesis by simp
  qed
  from h a b show ?thesis by blast
qed

subsection \<open>The fetch and the release of the range\<close>

lemma populate_keeps:
  "populate x n bs c acc = (c', r) \<Longrightarrow>
   events c' = events c \<and> requestLock c' = requestLock c"
  by (induction x n bs c acc rule: populate.induct) (auto split: result.splits)

lemma fetchBundle_keeps:
  assumes "fetchBundle x c n = (c', r)"
  shows "events c' = events c @ [EvGetBundleBlocksByBlockNum n] \<and> requestLock c' = requestLock c"
proof (cases "Client_GetBundleBlocksByBlockNum (client c) n")
  case (Inl err)
  with assms show ?thesis by (auto simp: fetchBundle_def Let_def)
next
  case (Inr blocks)
  with assms have "populate x n blocks (emit (EvGetBundleBlocksByBlockNum n) c) (None, None) = (c', r)"
    by (simp add: fetchBundle_def Let_def)
  from populate_keeps [OF this] show ?thesis by simp
qed

lemma getBlockByNumber_waiting:
  assumes "IsWithinAnyRange (requestLock c) n"
  shows "\<exists>c' r k. getBlockByNumber x c n = Some (c', r) \<and>
           new_events c c' = EvIsWithinAnyRange n # replicate k (EvSleep GetBlockRetryInterval)"
proof -
  let ?c0 = "emit (EvIsWithinAnyRange n) c"
  from waitLoop_rounds [of x ?c0 n] obtain k r where
    "waitLoop x 0 ?c0 n = (round_state x ?c0 k, r)" by blast
  moreover have "getBlockByNumber x c n = Some (waitLoop x 0 ?c0 n)"
    using assms by (simp add: getBlockByNumber_def Let_def)
  ultimately show ?thesis by (auto simp: new_events_def round_state_events)
qed

lemma getBlockByNumber_no_range:
  assumes "\<not> IsWithinAnyRange (requestLock c) n"
    and "\<forall>s e. GetBundleBlocksRange (client c) n \<noteq> Ok (s, e)"
  shows "\<exists>c' r. getBlockByNumber x c n = Some (c', r) \<and>
           new_events c c' = [EvIsWithinAnyRange n, EvGetBundleBlocksRange n]"
  using assms
  by (cases "GetBundleBlocksRange (client c) n")
     (auto simp: getBlockByNumber_def Let_def new_events_def)

lemma getBlockByNumber_fetching:
  assumes "\<not> IsWithinAnyRange (requestLock c) n"
    and "GetBundleBlocksRange (client c) n = Ok (s, e)" and "e \<noteq> - 1"
  shows "\<exists>c' r. getBlockByNumber x c n = Some (c', r) \<and>
           new_events c c' = [EvIsWithinAnyRange n, EvGetBundleBlocksRange n, EvAddRange s e,
             EvGetBundleBlocksByBlockNum n, EvRemoveRange s e] \<and>
           rangeMap (requestLock c') s = None \<and>
           (\<forall>x. s \<le> x \<and> x \<le> e \<longrightarrow> lookupMap (requestLock c') x = None)"
proof -
  let ?c2 = "emit (EvGetBundleBlocksRange n) (emit (EvIsWithinAnyRange n) c)"
  obtain rl where rl: "AddRange (requestLock ?c2) s e = Some rl"
    using AddRange_result [OF assms(3)] by simp
  let ?c2' = "emit (EvAddRange s e) (?c2\<lparr>requestLock := rl\<rparr>)"
  obtain c3 r where f: "fetchBundle x ?c2' n = (c3, r)" by (cases "fetchBundle x ?c2' n")
  from fetchBundle_keeps [OF f]
  have ev: "events c3 = events c @ [EvIsWithinAnyRange n, EvGetBundleBlocksRange n, EvAddRange s e,
             EvGetBundleBlocksByBlockNum n]"
    and lk: "requestLock c3 = rl" by simp_all
  let ?rl' = "\<lparr>rangeMap = (rangeMap rl)(s := None),
           lookupMap = (\<lambda>x. if s \<le> x \<and> x \<le> e then None else lookupMap rl x)\<rparr>"
  have rm: "RemoveRange (requestLock c3) s e = Some ?rl'"
    unfolding lk using assms(3) by (rule RemoveRange_result)
  have "getBlockByNumber x c n = Some (emit (EvRemoveRange s e) (c3\<lparr>requestLock := ?rl'\<rparr>), r)"
    using assms(1,2) rl f rm by (simp add: getBlockByNumber_def Let_def)
  then show ?thesis using ev by (simp add: new_events_def)
qed

lemma getBlockByNumber_diverges:
  assumes "\<not> IsWithinAnyRange (requestLock c) n"
    and "GetBundleBlocksRange (client c) n = Ok (s, - 1)"
  shows "getBlockByNumber x c n = None"
  using assms by (simp add: getBlockByNumber_def Let_def AddRange_max)

text \<open>
  Claim C3. In every call of \<open>getBlockByNumber\<close> that returns and has executed
  \<open>AddRange start end\<close>, it was executed once, \<open>RemoveRange start end\<close> was executed exactly
  once, as the last event of the call, whatever the call returns (values, an error of the
  fetch or of the conversion, or a panic), and the lock then has no entry for the range:
  none in \<open>rangeMap\<close> at \<open>start\<close>, none in \<open>lookupMap\<close> on \<open>[start, end]\<close>. The call returns
  unless the remote service names a bundle that ends at the largest \<^verbatim>\<open>uint64\<close>. The
  witness runs the two error paths: the request for the blocks fails, and a block of the
  bundle cannot be converted.
\<close>

theorem getBlockByNumber_releases_range:
  "((\<forall>s e. GetBundleBlocksRange (client c) n = Ok (s, e) \<longrightarrow> e \<noteq> - 1) \<longrightarrow>
      (\<exists>c' r. getBlockByNumber x c n = Some (c', r))) \<and>
   (\<forall>c' r s e. getBlockByNumber x c n = Some (c', r) \<and>
        EvAddRange s e \<in> set (new_events c c') \<longrightarrow>
      count_list (new_events c c') (EvAddRange s e) = 1 \<and>
      count_list (new_events c c') (EvRemoveRange s e) = 1 \<and>
      last (new_events c c') = EvRemoveRange s e \<and>
      rangeMap (requestLock c') s = None \<and>
      (\<forall>x. s \<le> x \<and> x \<le> e \<longrightarrow> \<not> IsWithinAnyRange (requestLock c') x))"
proof (cases "IsWithinAnyRange (requestLock c) n")
  case True
  from getBlockByNumber_waiting [OF True, of x] show ?thesis by auto
next
  case False
  show ?thesis
  proof (cases "\<exists>s e. GetBundleBlocksRange (client c) n = Ok (s, e)")
    case no: False
    then have "\<forall>s e. GetBundleBlocksRange (client c) n \<noteq> Ok (s, e)" by blast
    from getBlockByNumber_no_range [OF False this, of x] show ?thesis by auto
  next
    case True
    then obtain s e where ok: "GetBundleBlocksRange (client c) n = Ok (s, e)" by blast
    show ?thesis
    proof (cases "e = - 1")
      case True
      from getBlockByNumber_diverges [OF False ok [unfolded True], of x] ok True
      show ?thesis by auto
    next
      case ne: False
      from getBlockByNumber_fetching [OF False ok ne, of x] ok ne show ?thesis
        by (auto simp: IsWithinAnyRange_def)
    qed
  qed
qed

lemma ex_fetch_fails:
  "\<exists>c'. getBlockByNumber ex_externals (ex_service ex_client_failing_bundle) 6 =
          Some (c', Err ErrFailedToGetResponse) \<and>
        EvAddRange 5 7 \<in> set (new_events (ex_service ex_client_failing_bundle) c')"
proof -
  have cl: "client (ex_service ex_client_failing_bundle) = ex_client_failing_bundle"
    by (simp add: ex_service_def)
  have "GetBundleBlocksRange (client (ex_service ex_client_failing_bundle)) 6 = Ok (5, 7)"
    by (simp add: cl ex_range_failing)
  moreover have "Client_GetBundleBlocksByBlockNum ex_client_failing_bundle 6 =
      Inl ErrFailedToGetResponse"
    by (simp add: Client_GetBundleBlocksByBlockNum_def postRequest_decode_def
        ex_client_failing_bundle_def)
  ultimately show ?thesis
    by (simp add: getBlockByNumber_def Let_def AddRange_result RemoveRange_result fetchBundle_def
        cl IsWithinAnyRange_def ex_service_def NewRequestLock_def new_events_def)
qed

lemma ex_convert_fails:
  "\<exists>c'. getBlockByNumber ex_externals (ex_service ex_client_nil_block) 6 =
          Some (c', Err (ErrExternal ''nil block'')) \<and>
        EvAddRange 5 7 \<in> set (new_events (ex_service ex_client_nil_block) c')"
proof -
  have cl: "client (ex_service ex_client_nil_block) = ex_client_nil_block"
    by (simp add: ex_service_def)
  have "GetBundleBlocksRange (client (ex_service ex_client_nil_block)) 6 = Ok (5, 7)"
    by (simp add: cl ex_range_nil)
  moreover have "Client_GetBundleBlocksByBlockNum ex_client_nil_block 6 = Inr [None]"
    by (simp add: Client_GetBundleBlocksByBlockNum_def postRequest_decode_def
        ex_client_nil_block_def)
  ultimately show ?thesis
    by (simp add: getBlockByNumber_def Let_def AddRange_result RemoveRange_result fetchBundle_def
        cl IsWithinAnyRange_def ex_service_def NewRequestLock_def new_events_def ex_externals_def)
qed

theorem getBlockByNumber_releases_range_witness:
  "(\<exists>c'. getBlockByNumber ex_externals (ex_service ex_client_failing_bundle) 6 =
          Some (c', Err ErrFailedToGetResponse) \<and>
        EvAddRange 5 7 \<in> set (new_events (ex_service ex_client_failing_bundle) c') \<and>
        count_list (new_events (ex_service ex_client_failing_bundle) c') (EvRemoveRange 5 7) = 1 \<and>
        rangeMap (requestLock c') 5 = None \<and>
        \<not> IsWithinAnyRange (requestLock c') 5 \<and> \<not> IsWithinAnyRange (requestLock c') 6 \<and>
        \<not> IsWithinAnyRange (requestLock c') 7) \<and>
   (\<exists>c'. getBlockByNumber ex_externals (ex_service ex_client_nil_block) 6 =
          Some (c', Err (ErrExternal ''nil block'')) \<and>
        EvAddRange 5 7 \<in> set (new_events (ex_service ex_client_nil_block) c') \<and>
        count_list (new_events (ex_service ex_client_nil_block) c') (EvRemoveRange 5 7) = 1 \<and>
        rangeMap (requestLock c') 5 = None \<and>
        \<not> IsWithinAnyRange (requestLock c') 5 \<and> \<not> IsWithinAnyRange (requestLock c') 6 \<and>
        \<not> IsWithinAnyRange (requestLock c') 7)"
proof -
  have in57: "(5::uint64) \<le> 5 \<and> 5 \<le> (7::uint64)" "(5::uint64) \<le> 6 \<and> 6 \<le> (7::uint64)"
    "(5::uint64) \<le> 7 \<and> 7 \<le> (7::uint64)" by simp_all
  have a: "count_list (new_events c c') (EvRemoveRange 5 7) = 1 \<and>
        rangeMap (requestLock c') 5 = None \<and>
        \<not> IsWithinAnyRange (requestLock c') 5 \<and> \<not> IsWithinAnyRange (requestLock c') 6 \<and>
        \<not> IsWithinAnyRange (requestLock c') 7"
    if "getBlockByNumber ex_externals c 6 = Some (c', r)"
      and "EvAddRange 5 7 \<in> set (new_events c c')"
    for c c' :: "(string, string) BlockArchiverService" and r
    using getBlockByNumber_releases_range [of c 6 ex_externals] that in57 by blast
  from ex_fetch_fails obtain c1 where
    c1: "getBlockByNumber ex_externals (ex_service ex_client_failing_bundle) 6 =
          Some (c1, Err ErrFailedToGetResponse)"
      "EvAddRange 5 7 \<in> set (new_events (ex_service ex_client_failing_bundle) c1)" by blast
  from ex_convert_fails obtain c2 where
    c2: "getBlockByNumber ex_externals (ex_service ex_client_nil_block) 6 =
          Some (c2, Err (ErrExternal ''nil block''))"
      "EvAddRange 5 7 \<in> set (new_events (ex_service ex_client_nil_block) c2)" by blast
  from a [OF c1] a [OF c2] c1 c2 show ?thesis by blast
qed

end
